theory Spec2Isabelle
  imports Main "HOL-Library.Word" "HOL-Library.Char_ord" "HOL-Library.List_Lexorder"
begin

unbundle bit_operations_syntax

section \<open>Machine types\<close>

text \<open>
  The sources are compiled for a 64-bit target: \<open>size_t\<close> and \<open>uint64_t\<close> are 64-bit
  unsigned integers whose arithmetic wraps around.  Keys and values are byte strings; the
  order on them is the lexicographic byte order of \<open>std::string\<close>.
\<close>

type_synonym size_t = "64 word"
type_synonym byte = "8 word"

text \<open>
  Accesses without defined behaviour in C++ are results of their own: an index outside an
  array or vector (\<open>OutOfRange\<close>), the use of a pointer to no live object
  (\<open>BadPointer\<close>) and a remainder by zero (\<open>DivisionByZero\<close>).  A pointer-chasing loop is run with a bound on its iterations;
  \<open>OutOfFuel\<close> says that the bound was reached.  In one place the sources read past the
  end of a vector and throw the value away, the increment of the SST iterator; whether that
  read is a fault is a parameter of the model there.
\<close>

datatype fault = OutOfRange | BadPointer | OutOfFuel | DivisionByZero

section \<open>Raft: the bounded log (raft/raft\_log.hpp, utils/ring\_buffer\_queue.hpp)\<close>

text \<open>
  The protobuf message \<open>Entry\<close> is generated code that is not part of the sources.  Its
  numeric fields are carried here as the 64-bit values to which the C++ comparisons and
  assignments against \<open>size_t\<close> convert them; a freshly constructed message has all
  numeric fields zero.
\<close>

record Entry =
  entry_term :: int
  entry_index :: size_t
  entry_key :: string
  entry_value :: string
  entry_mode :: int
  entry_commited :: size_t

text \<open>
  An access \<open>data_[i]\<close> outside the \<open>std::array\<close> has no defined behaviour in C++; the
  model reports it as a fault instead of inventing a result.
\<close>

record 'a RingBufferQueue =
  rb_data :: "size_t \<Rightarrow> 'a"
  rb_head :: size_t
  rb_tail :: size_t

definition ring_buffer_size :: size_t where
  "ring_buffer_size = push_bit 8 (push_bit 10 1)"

definition ring_buffer_size_musk :: size_t where
  "ring_buffer_size_musk = ring_buffer_size - 1"

definition rb_full :: "'a RingBufferQueue \<Rightarrow> bool" where
  "rb_full q \<longleftrightarrow> (rb_head q + 1) AND ring_buffer_size_musk = rb_tail q"

definition PushBack :: "'a \<Rightarrow> 'a RingBufferQueue \<Rightarrow> fault + (bool \<times> 'a RingBufferQueue)" where
  "PushBack rhs q =
     (if rb_full q then Inr (False, q)
      else if rb_head q + 1 < ring_buffer_size
      then Inr (True, q\<lparr>rb_data := (rb_data q)(rb_head q + 1 := rhs), rb_head := rb_head q + 1\<rparr>)
      else Inl OutOfRange)"

definition PopFront :: "'a RingBufferQueue \<Rightarrow> bool \<times> 'a RingBufferQueue" where
  "PopFront q = (if rb_tail q = rb_head q then (False, q) else (True, q\<lparr>rb_tail := rb_tail q + 1\<rparr>))"

definition Truncate :: "size_t \<Rightarrow> 'a RingBufferQueue \<Rightarrow> size_t \<times> 'a RingBufferQueue" where
  "Truncate count q =
     (if rb_tail q = rb_head q then (0, q)
      else let max_count = rb_head q - rb_tail q;
               count' = min count max_count
           in (count', q\<lparr>rb_head := rb_head q - count'\<rparr>))"

definition At :: "size_t \<Rightarrow> 'a RingBufferQueue \<Rightarrow> fault + 'a" where
  "At i q = (if rb_tail q + i + 1 < ring_buffer_size then Inr (rb_data q (rb_tail q + i + 1))
             else Inl OutOfRange)"

record RaftLog =
  stop :: bool
  index :: size_t
  queue :: "Entry RingBufferQueue"
  commited :: size_t
  last_append :: size_t
  start_index :: size_t

text \<open>The constructor: all four counters start from the persisted commit index, or from 0.\<close>

definition RaftLog_init :: "size_t \<Rightarrow> RaftLog" where
  "RaftLog_init v =
     \<lparr>stop = False, index = v,
      queue = \<lparr>rb_data = (\<lambda>_. \<lparr>entry_term = 0, entry_index = 0, entry_key = [], entry_value = [],
                                 entry_mode = 0, entry_commited = 0\<rparr>),
               rb_head = 0, rb_tail = 0\<rparr>,
      commited = v, last_append = v, start_index = v\<rparr>"

text \<open>\<open>bool Put(key, value, term, idx)\<close>: the out-parameter \<open>idx\<close> is the \<open>Some\<close> result.\<close>

definition Put :: "string \<Rightarrow> string \<Rightarrow> int \<Rightarrow> RaftLog \<Rightarrow> fault + (size_t option \<times> RaftLog)" where
  "Put k v t s =
     (if stop s then Inr (None, s)
      else let entry = \<lparr>entry_term = t, entry_index = index s + 1, entry_key = k, entry_value = v,
                         entry_mode = 0, entry_commited = 0\<rparr>
           in case PushBack entry (queue s) of
                Inl f \<Rightarrow> Inl f
              | Inr (ok, q) \<Rightarrow>
                  if ok
                  then let s1 = s\<lparr>queue := q, index := index s + 1\<rparr>;
                           s2 = (if entry_commited entry > commited s1
                                 then s1\<lparr>commited := entry_commited entry\<rparr> else s1)
                       in Inr (Some (index s1), s2)
                  else Inr (None, s))"

text \<open>\<open>bool Put(Entry&)\<close>: the entry comes from the leader with its own index and commit index.\<close>

definition Put_entry :: "Entry \<Rightarrow> RaftLog \<Rightarrow> fault + (bool \<times> RaftLog)" where
  "Put_entry entry s =
     (if stop s then Inr (False, s)
      else case PushBack entry (queue s) of
             Inl f \<Rightarrow> Inl f
           | Inr (ok, q) \<Rightarrow>
               if ok
               then let s1 = s\<lparr>queue := q, index := index s + 1\<rparr>;
                        s2 = (if entry_commited entry > commited s1
                              then s1\<lparr>commited := entry_commited entry\<rparr> else s1)
                    in Inr (True, s2)
               else Inr (False, s))"

definition Reset :: "size_t \<Rightarrow> RaftLog \<Rightarrow> RaftLog" where
  "Reset expect_index s =
     (if index s > expect_index
      then let count = index s - expect_index;
               (removed, q) = Truncate count (queue s)
           in s\<lparr>queue := q, index := index s - removed\<rparr>
      else s)"

definition UpdateCommit :: "size_t \<Rightarrow> RaftLog \<Rightarrow> RaftLog" where
  "UpdateCommit leader_commit s = s\<lparr>commited := max (commited s) (min (index s) leader_commit)\<rparr>"

text \<open>
  One round of the applier thread: when something is committed but not applied it advances
  \<open>last_append_\<close> and hands the entry at that position to the storage engine.
\<close>

definition applier_step :: "RaftLog \<Rightarrow> fault + (Entry option \<times> RaftLog)" where
  "applier_step s =
     (if last_append s < commited s
      then let s1 = s\<lparr>last_append := last_append s + 1\<rparr>
           in case At (last_append s1 - start_index s1 - 1) (queue s1) of
                Inl f \<Rightarrow> Inl f
              | Inr entry \<Rightarrow> Inr (Some entry, s1)
      else Inr (None, s))"

text \<open>The ordering of the four counters that the specification calls the log invariant.\<close>

definition log_ordered :: "RaftLog \<Rightarrow> bool" where
  "log_ordered s \<longleftrightarrow> start_index s \<le> last_append s \<and> last_append s \<le> commited s \<and> commited s \<le> index s"

text \<open>
  The states of a log in use: what the constructor builds, from the persisted commit
  index or from 0, and what the calls of the node and of the applier thread make of it.
  \<open>RaftLog::PopFront\<close> has no caller in the sources, and \<open>stop_\<close> is written by the
  destructor only, after which there are no calls.
\<close>

inductive log_reachable :: "RaftLog \<Rightarrow> bool" where
  by_init: "log_reachable (RaftLog_init v)"
| by_Put: "log_reachable s \<Longrightarrow> Put k v t s = Inr (r, s') \<Longrightarrow> log_reachable s'"
| by_Put_entry: "log_reachable s \<Longrightarrow> Put_entry e s = Inr (ok, s') \<Longrightarrow> log_reachable s'"
| by_Reset: "log_reachable s \<Longrightarrow> log_reachable (Reset expect_index s)"
| by_UpdateCommit: "log_reachable s \<Longrightarrow> log_reachable (UpdateCommit leader_commit s)"
| by_applier_step: "log_reachable s \<Longrightarrow> applier_step s = Inr (r, s') \<Longrightarrow> log_reachable s'"

text \<open>The log after \<open>n\<close> local appends to a fresh one.\<close>

primrec appended :: "nat \<Rightarrow> RaftLog" where
  "appended 0 = RaftLog_init 0"
| "appended (Suc n) =
     (case Put ''k'' ''v'' 1 (appended n) of
        Inr (r, s') \<Rightarrow> s'
      | Inl f \<Rightarrow> appended n)"

section \<open>Raft: the node (raft/pod.hpp)\<close>

datatype PodStatus = Candidate | Leader | Follower

text \<open>The per-peer replicator of a leader; \<open>Stop\<close> raises its stop flag and joins its thread.\<close>

record Replicator =
  nextindex :: int
  rep_stop :: bool

definition Stop :: "Replicator \<Rightarrow> Replicator" where
  "Stop f = f\<lparr>rep_stop := True\<rparr>"

text \<open>
  \<open>RequestVoteReq\<close> is generated protobuf code as well: \<open>req_term\<close> is \<open>req.term()\<close> and
  \<open>req_index\<close> is \<open>static_cast<size_t>(req.index())\<close>.
\<close>

record RequestVoteReq =
  req_id :: int
  req_term :: int
  req_index :: size_t

record Pod =
  last_time :: "64 word"
  pod_term :: int
  voted :: bool
  status :: PodStatus
  leader_id :: int
  followers :: "Replicator list"
  raft_log :: RaftLog

text \<open>\<open>Pod::Vote\<close>; \<open>now\<close> is the clock reading taken on entry.\<close>

definition Vote :: "64 word \<Rightarrow> RequestVoteReq \<Rightarrow> Pod \<Rightarrow> bool \<times> Pod" where
  "Vote now req pod =
     (let pod1 = pod\<lparr>last_time := now\<rparr>;
          current_log_index = index (raft_log pod1)
      in if req_term req < pod_term pod1 then (False, pod1)
         else if req_term req = pod_term pod1 \<and> req_index req < current_log_index then (False, pod1)
         else if req_term req = pod_term pod1 \<and> voted pod1 then (False, pod1)
         else let pod2 = (if req_term req > pod_term pod1
                          then pod1\<lparr>pod_term := req_term req,
                                    followers := (if status pod1 = Leader
                                                  then map Stop (followers pod1)
                                                  else followers pod1),
                                    status := Follower\<rparr>
                          else pod1)
              in (True, pod2\<lparr>voted := True\<rparr>))"

text \<open>
  \<open>Pod::UpdateRaftLog\<close> touches only the log.  The result is the response code together
  with the log afterwards; the return values of the two \<open>Put\<close> calls are ignored by the
  source.
\<close>

definition UpdateRaftLog :: "Entry list \<Rightarrow> size_t \<Rightarrow> RaftLog \<Rightarrow> fault + (int \<times> RaftLog)" where
  "UpdateRaftLog entries leader_commit s =
     (if length entries = 1
      then let entry = entries ! 0
           in if entry_index entry \<noteq> index s + 1
              then let s1 = (if leader_commit < index s \<and> leader_commit > commited s
                             then Reset (commited s) s else s)
                   in if entry_index entry \<noteq> index s1 + 1 then Inr (- 2, s1)
                      else (case Put_entry entry s1 of
                              Inl f \<Rightarrow> Inl f
                            | Inr (ok, s2) \<Rightarrow> Inr (0, s2))
              else (case Put_entry entry s of
                      Inl f \<Rightarrow> Inl f
                    | Inr (ok, s2) \<Rightarrow> Inr (0, s2))
      else Inr (- 3, s))"



text \<open>
  A follower log used in the examples below: five entries received, two of them committed
  and applied to nothing yet.
\<close>

definition log5 :: RaftLog where
  "log5 = (RaftLog_init 0)\<lparr>index := 5, commited := 2,
            queue := (queue (RaftLog_init 0))\<lparr>rb_head := 5\<rparr>\<rparr>"


definition entry1 :: Entry where
  "entry1 = \<lparr>entry_term = 1, entry_index = 1, entry_key = ''k'', entry_value = ''v'',
             entry_mode = 0, entry_commited = 5\<rparr>"

definition pod0 :: Pod where
  "pod0 = \<lparr>last_time = 0, pod_term = 3, voted = False, status = Leader, leader_id = 0,
           followers = [\<lparr>nextindex = 5, rep_stop = False\<rparr>], raft_log = log5\<rparr>"


section \<open>The skip list behind the MemTable (lsm/skiplist.hpp, utils/global\_random.cpp)\<close>

text \<open>
  \<open>GlobalRand\<close> is a process-wide atomic counter: a call returns the counter and adds
  one.  The values one call of \<open>RandLevel\<close> receives are therefore an increasing run of
  counter values, consecutive unless other threads draw in between.  \<open>RandLevel\<close> takes
  the values it receives as a list and returns the level together with the values left
  over; \<open>None\<close> says that the list ended before the loop did.
\<close>

definition GlobalRand :: "64 word \<Rightarrow> 64 word \<times> 64 word" where
  "GlobalRand counter = (counter, counter + 1)"

fun RandLevel_loop :: "64 word list \<Rightarrow> size_t \<Rightarrow> (size_t \<times> 64 word list) option" where
  "RandLevel_loop [] level = None"
| "RandLevel_loop (d # ds) level =
     (if d AND 3 = 0 then RandLevel_loop ds (level + 1) else Some (level, ds))"

definition RandLevel :: "64 word list \<Rightarrow> (size_t \<times> 64 word list) option" where
  "RandLevel draws = RandLevel_loop draws 1"

text \<open>
  Nodes live in a heap addressed by pointers; \<open>nexts\<close> is the vector of forward pointers,
  \<open>None\<close> the null pointer.  \<open>next_ptr\<close> is the address the next \<open>new Node\<close> returns.
\<close>

type_synonym ptr = nat

record Node =
  nexts :: "ptr option list"
  node_key :: string
  node_value :: string

record ConcurrentSkipList =
  nodes :: "ptr \<Rightarrow> Node option"
  head :: ptr
  sl_size :: size_t
  sl_binary_size :: size_t
  next_ptr :: ptr

definition skiplist_new :: ConcurrentSkipList where
  "skiplist_new = \<lparr>nodes = Map.empty(0 \<mapsto> \<lparr>nexts = [None], node_key = [], node_value = []\<rparr>),
                    head = 0, sl_size = 0, sl_binary_size = 0, next_ptr = 1\<rparr>"

text \<open>
  The inner loop \<open>while (p->nexts[level] && p->nexts[level]->key < key) p = p->nexts[level]\<close>,
  bounded by \<open>fuel\<close> iterations.
\<close>

fun walk :: "nat \<Rightarrow> (ptr \<Rightarrow> Node option) \<Rightarrow> ptr \<Rightarrow> nat \<Rightarrow> string \<Rightarrow> fault + ptr" where
  "walk 0 h p level k = Inl OutOfFuel"
| "walk (Suc fuel) h p level k =
     (case h p of
        None \<Rightarrow> Inl BadPointer
      | Some np \<Rightarrow>
          if level < length (nexts np)
          then (case nexts np ! level of
                  None \<Rightarrow> Inr p
                | Some q \<Rightarrow>
                    (case h q of
                       None \<Rightarrow> Inl BadPointer
                     | Some nq \<Rightarrow> if node_key nq < k then walk fuel h q level k else Inr p))
          else Inl OutOfRange)"

text \<open>The outer loop over the levels \<open>n - 1, \<dots>, 0\<close>.\<close>

fun descend :: "nat \<Rightarrow> (ptr \<Rightarrow> Node option) \<Rightarrow> ptr \<Rightarrow> nat \<Rightarrow> string \<Rightarrow> fault + ptr" where
  "descend fuel h p 0 k = Inr p"
| "descend fuel h p (Suc level) k =
     (case walk fuel h p level k of
        Inl f \<Rightarrow> Inl f
      | Inr q \<Rightarrow> descend fuel h q level k)"

text \<open>
  The same loop in \<open>Put\<close>, which also records the node reached on every level above 0 in
  the arrays \<open>path\<close> and \<open>path_levels\<close> of 32 slots.
\<close>

fun descend_path :: "nat \<Rightarrow> (ptr \<Rightarrow> Node option) \<Rightarrow> ptr \<Rightarrow> nat \<Rightarrow> string \<Rightarrow> (ptr \<times> nat) list
                       \<Rightarrow> fault + (ptr \<times> (ptr \<times> nat) list)" where
  "descend_path fuel h p 0 k path = Inr (p, path)"
| "descend_path fuel h p (Suc level) k path =
     (case walk fuel h p level k of
        Inl f \<Rightarrow> Inl f
      | Inr q \<Rightarrow>
          if level > 0
          then (if length path < 32 then descend_path fuel h q level k (path @ [(q, level)])
                else Inl OutOfRange)
          else descend_path fuel h q level k path)"

text \<open>The test \<open>p->nexts[0] && p->nexts[0]->key == key\<close>: the node after \<open>p\<close> if it holds the key.\<close>

definition found_at :: "(ptr \<Rightarrow> Node option) \<Rightarrow> ptr \<Rightarrow> string \<Rightarrow> fault + ptr option" where
  "found_at h p k =
     (case h p of
        None \<Rightarrow> Inl BadPointer
      | Some np \<Rightarrow>
          if 0 < length (nexts np)
          then (case nexts np ! 0 of
                  None \<Rightarrow> Inr None
                | Some q \<Rightarrow>
                    (case h q of
                       None \<Rightarrow> Inl BadPointer
                     | Some nq \<Rightarrow> if node_key nq = k then Inr (Some q) else Inr None))
          else Inl OutOfRange)"

definition sl_Get :: "nat \<Rightarrow> string \<Rightarrow> ConcurrentSkipList \<Rightarrow> fault + string option" where
  "sl_Get fuel k sl =
     (case nodes sl (head sl) of
        None \<Rightarrow> Inl BadPointer
      | Some hn \<Rightarrow>
          (case descend fuel (nodes sl) (head sl) (length (nexts hn)) k of
             Inl f \<Rightarrow> Inl f
           | Inr p \<Rightarrow>
               (case found_at (nodes sl) p k of
                  Inl f \<Rightarrow> Inl f
                | Inr None \<Rightarrow> Inr None
                | Inr (Some q) \<Rightarrow> Inr (map_option node_value (nodes sl q)))))"

text \<open>\<open>std::vector::resize(n, nullptr)\<close>.\<close>

definition resize :: "nat \<Rightarrow> ptr option list \<Rightarrow> ptr option list" where
  "resize n xs = take n xs @ replicate (n - length xs) None"

text \<open>
  The loop that widens the recorded path nodes after the head has grown:
  \<open>if (path[i] && path_levels[i] < new_level) path[i]->nexts.resize(new_level, nullptr)\<close>.
\<close>

fun resize_path :: "(ptr \<times> nat) list \<Rightarrow> nat \<Rightarrow> (ptr \<Rightarrow> Node option) \<Rightarrow> fault + (ptr \<Rightarrow> Node option)" where
  "resize_path [] new_level h = Inr h"
| "resize_path ((p, l) # path) new_level h =
     (if l < new_level
      then (case h p of
              None \<Rightarrow> Inl BadPointer
            | Some np \<Rightarrow> resize_path path new_level (h(p \<mapsto> np\<lparr>nexts := resize new_level (nexts np)\<rparr>)))
      else resize_path path new_level h)"

text \<open>
  The linking loop at the end of \<open>Put\<close>.  It starts from the node \<open>p\<close> the search ended
  at, on the top level of the head, and on every level below \<open>new_level\<close> executes
  \<open>node->nexts[level] = p->nexts[level]; p->nexts[level] = node\<close>.
\<close>

fun insert_loop :: "nat \<Rightarrow> (ptr \<Rightarrow> Node option) \<Rightarrow> ptr \<Rightarrow> ptr \<Rightarrow> nat \<Rightarrow> nat \<Rightarrow> string
                      \<Rightarrow> fault + (ptr \<Rightarrow> Node option)" where
  "insert_loop fuel h p node 0 new_level k = Inr h"
| "insert_loop fuel h p node (Suc level) new_level k =
     (case walk fuel h p level k of
        Inl f \<Rightarrow> Inl f
      | Inr q \<Rightarrow>
          if level < new_level
          then (case (h q, h node) of
                  (Some nq, Some nn) \<Rightarrow>
                    if level < length (nexts nq) \<and> level < length (nexts nn)
                    then let h1 = h(node \<mapsto> nn\<lparr>nexts := (nexts nn)[level := nexts nq ! level]\<rparr>)
                         in (case h1 q of
                               None \<Rightarrow> Inl BadPointer
                             | Some nq1 \<Rightarrow>
                                 insert_loop fuel
                                   (h1(q \<mapsto> nq1\<lparr>nexts := (nexts nq1)[level := Some node]\<rparr>))
                                   q node level new_level k)
                    else Inl OutOfRange
                | _ \<Rightarrow> Inl BadPointer)
          else insert_loop fuel h q node level new_level k)"

text \<open>
  \<open>ConcurrentSkipList::Put\<close>.  The result is the list afterwards and the random values
  left over; only the insertion of a new key draws random values.
\<close>

definition sl_Put :: "nat \<Rightarrow> string \<Rightarrow> string \<Rightarrow> 64 word list \<Rightarrow> ConcurrentSkipList
                        \<Rightarrow> fault + (ConcurrentSkipList \<times> 64 word list)" where
  "sl_Put fuel k v draws sl =
     (case nodes sl (head sl) of
        None \<Rightarrow> Inl BadPointer
      | Some hn \<Rightarrow>
          (case descend_path fuel (nodes sl) (head sl) (length (nexts hn)) k [] of
             Inl f \<Rightarrow> Inl f
           | Inr (p, path) \<Rightarrow>
               (case found_at (nodes sl) p k of
                  Inl f \<Rightarrow> Inl f
                | Inr (Some q) \<Rightarrow>
                    (case nodes sl q of
                       None \<Rightarrow> Inl BadPointer
                     | Some nq \<Rightarrow>
                         Inr (sl\<lparr>nodes := (nodes sl)(q \<mapsto> nq\<lparr>node_value := v\<rparr>),
                                 sl_binary_size := sl_binary_size sl
                                    + (word_of_nat (length v) - word_of_nat (length (node_value nq)))\<rparr>,
                              draws))
                | Inr None \<Rightarrow>
                    (case RandLevel draws of
                       None \<Rightarrow> Inl OutOfFuel
                     | Some (lvl, draws') \<Rightarrow>
                         let new_level = unat lvl;
                             node = next_ptr sl;
                             h0 = (nodes sl)(node \<mapsto> \<lparr>nexts = replicate new_level None,
                                                        node_key = k, node_value = v\<rparr>);
                             sl0 = sl\<lparr>sl_size := sl_size sl + 1,
                                      sl_binary_size := sl_binary_size sl
                                         + (word_of_nat (length k) + word_of_nat (length v)),
                                      next_ptr := Suc node\<rparr>;
                             grown = (if new_level > length (nexts hn)
                                      then (case resize_path path new_level
                                                   (h0(head sl \<mapsto> hn\<lparr>nexts := resize new_level (nexts hn)\<rparr>)) of
                                              Inl f \<Rightarrow> Inl f
                                            | Inr h1 \<Rightarrow>
                                                (case descend fuel h1 (head sl) new_level k of
                                                   Inl f \<Rightarrow> Inl f
                                                 | Inr p1 \<Rightarrow> Inr (h1, p1)))
                                      else Inr (h0, p))
                         in (case grown of
                               Inl f \<Rightarrow> Inl f
                             | Inr (h1, p1) \<Rightarrow>
                                 (case (h1 (head sl), h1 node) of
                                    (Some hn1, Some nn) \<Rightarrow>
                                      let h2 = (if length (nexts hn1) > length (nexts nn)
                                                then h1(node \<mapsto> nn\<lparr>nexts := resize (length (nexts hn1)) (nexts nn)\<rparr>)
                                                else h1)
                                      in (case insert_loop fuel h2 p1 node (length (nexts hn1)) new_level k of
                                            Inl f \<Rightarrow> Inl f
                                          | Inr h3 \<Rightarrow> Inr (sl0\<lparr>nodes := h3\<rparr>, draws'))
                                  | _ \<Rightarrow> Inl BadPointer))))))"

text \<open>A list with the keys \<open>a\<close> and \<open>b\<close> on one level, used in the examples.\<close>

definition sl_a :: ConcurrentSkipList where
  "sl_a = \<lparr>nodes = Map.empty(0 \<mapsto> \<lparr>nexts = [Some 1], node_key = [], node_value = []\<rparr>,
                                1 \<mapsto> \<lparr>nexts = [Some 2], node_key = ''a'', node_value = ''1''\<rparr>,
                                2 \<mapsto> \<lparr>nexts = [None], node_key = ''b'', node_value = ''22''\<rparr>),
           head = 0, sl_size = 2, sl_binary_size = 5, next_ptr = 3\<rparr>"



section \<open>The Bloom filter (utils/bloom\_filter.hpp)\<close>

text \<open>
  \<open>Save\<close> and \<open>Load\<close> work on raw memory through \<open>reinterpret_cast<size_t*>\<close>.  A
  buffer is the sequence of bytes from the pointer \<open>s\<close> on; a 64-bit value occupies eight
  bytes, least significant first, as on the little-endian targets the code is built for.
\<close>

type_synonym buffer = "nat \<Rightarrow> byte"

definition u64_bytes :: "64 word \<Rightarrow> byte list" where
  "u64_bytes w = map (\<lambda>k. ucast (drop_bit (8 * k) w)) [0..<8]"

definition bytes_u64 :: "byte list \<Rightarrow> 64 word" where
  "bytes_u64 bs = foldr (\<lambda>b acc. ucast b OR push_bit 8 acc) bs 0"

definition write_bytes :: "buffer \<Rightarrow> nat \<Rightarrow> byte list \<Rightarrow> buffer" where
  "write_bytes m i bs = (\<lambda>j. if i \<le> j \<and> j < i + length bs then bs ! (j - i) else m j)"

definition read_bytes :: "buffer \<Rightarrow> nat \<Rightarrow> nat \<Rightarrow> byte list" where
  "read_bytes m i n = map m [i..<i + n]"

definition store_u64 :: "buffer \<Rightarrow> nat \<Rightarrow> 64 word \<Rightarrow> buffer" where
  "store_u64 m i w = write_bytes m i (u64_bytes w)"

definition load_u64 :: "buffer \<Rightarrow> nat \<Rightarrow> 64 word" where
  "load_u64 m i = bytes_u64 (read_bytes m i 8)"

text \<open>Consecutive 64-bit values: the seed loop of \<open>Save\<close>, the \<open>memcpy\<close> of the bit array.\<close>

primrec store_u64s :: "buffer \<Rightarrow> nat \<Rightarrow> 64 word list \<Rightarrow> buffer" where
  "store_u64s m i [] = m"
| "store_u64s m i (w # ws) = store_u64s (store_u64 m i w) (i + 8) ws"

definition load_u64s :: "buffer \<Rightarrow> nat \<Rightarrow> nat \<Rightarrow> 64 word list" where
  "load_u64s m i n = map (\<lambda>k. load_u64 m (i + 8 * k)) [0..<n]"

text \<open>
  \<open>bf_data\<close> is the array \<open>data_\<close> points to.  For a loaded filter that array is a view
  into the buffer it was loaded from.
\<close>

record BloomFilter =
  bf_length :: size_t
  bf_hash_num :: size_t
  bf_seed :: "size_t list"
  bf_data :: "64 word list"
  bf_size :: size_t
  bf_loaded :: bool

text \<open>
  \<open>Init(n, p)\<close> computes the bit count and the number of hash functions in \<open>double\<close>
  arithmetic (\<open>CalcLength\<close>, \<open>0.69 * length / n\<close>) and takes the seeds from \<open>GlobalRand\<close>.
  The two computed numbers and the values drawn are parameters here; the vector
  \<open>seed_\<close> of a freshly constructed filter is empty.
\<close>

definition Init :: "size_t \<Rightarrow> size_t \<Rightarrow> 64 word list \<Rightarrow> BloomFilter" where
  "Init len hash_num draws =
     \<lparr>bf_length = len, bf_hash_num = hash_num, bf_seed = take (unat hash_num) draws,
      bf_data = replicate (unat (len div 64 + 1)) 0, bf_size = len div 64 + 1,
      bf_loaded = False\<rparr>"

text \<open>
  \<open>CalcHash\<close>: \<open>res = res * seed + static_cast<size_t>(s[i])\<close>; \<open>char\<close> is signed on
  the target, so a byte above 127 is sign-extended.
\<close>

definition CalcHash :: "string \<Rightarrow> size_t \<Rightarrow> size_t" where
  "CalcHash s seed = foldl (\<lambda>res c. res * seed + scast (of_char c :: byte)) 0 s"

fun Insert_loop :: "size_t list \<Rightarrow> string \<Rightarrow> size_t \<Rightarrow> 64 word list \<Rightarrow> fault + 64 word list" where
  "Insert_loop [] s len dat = Inr dat"
| "Insert_loop (seed # seeds) s len dat =
     (if len = 0 then Inl DivisionByZero
      else let key = CalcHash s seed mod len
           in if unat (key div 64) < length dat
              then Insert_loop seeds s len
                     (dat[unat (key div 64) := dat ! unat (key div 64) OR push_bit (unat (key AND 63)) 1])
              else Inl OutOfRange)"

definition Insert :: "string \<Rightarrow> BloomFilter \<Rightarrow> fault + BloomFilter" where
  "Insert s bf = (case Insert_loop (bf_seed bf) s (bf_length bf) (bf_data bf) of
                    Inl f \<Rightarrow> Inl f
                  | Inr dat \<Rightarrow> Inr (bf\<lparr>bf_data := dat\<rparr>))"

fun Check_loop :: "size_t list \<Rightarrow> string \<Rightarrow> size_t \<Rightarrow> 64 word list \<Rightarrow> fault + bool" where
  "Check_loop [] s len dat = Inr True"
| "Check_loop (seed # seeds) s len dat =
     (if len = 0 then Inl DivisionByZero
      else let key = CalcHash s seed mod len
           in if unat (key div 64) < length dat
              then (if dat ! unat (key div 64) AND push_bit (unat (key AND 63)) 1 = 0
                    then Inr False
                    else Check_loop seeds s len dat)
              else Inl OutOfRange)"

definition Check :: "string \<Rightarrow> BloomFilter \<Rightarrow> fault + bool" where
  "Check s bf = Check_loop (bf_seed bf) s (bf_length bf) (bf_data bf)"

text \<open>
  \<open>Save\<close>.  After the seeds the offset is advanced by \<open>8 - (index & 7)\<close>; the bytes skipped
  are not written.  The result is the buffer afterwards and the number of bytes reported.
\<close>

definition Save :: "BloomFilter \<Rightarrow> buffer \<Rightarrow> fault + (buffer \<times> nat)" where
  "Save bf s =
     (let s1 = store_u64 s 0 (bf_hash_num bf);
          s2 = store_u64 s1 8 (bf_length bf)
      in if unat (bf_hash_num bf) \<le> length (bf_seed bf)
         then let s3 = store_u64s s2 16 (take (unat (bf_hash_num bf)) (bf_seed bf));
                  index = 16 + 8 * unat (bf_hash_num bf);
                  index' = index + (8 - index mod 8)
              in if unat (bf_size bf) \<le> length (bf_data bf)
                 then Inr (store_u64s s3 index' (take (unat (bf_size bf)) (bf_data bf)),
                           index' + unat (bf_size bf) * 8)
                 else Inl OutOfRange
         else Inl OutOfRange)"

definition Load :: "buffer \<Rightarrow> BloomFilter \<times> nat" where
  "Load s =
     (let hash_num = load_u64 s 0;
          len = load_u64 s 8;
          seed = load_u64s s 16 (unat hash_num);
          size = len div 64 + 1;
          index = 16 + 8 * unat hash_num;
          index' = index + (8 - index mod 8)
      in (\<lparr>bf_length = len, bf_hash_num = hash_num, bf_seed = seed,
           bf_data = load_u64s s index' (unat size), bf_size = size, bf_loaded = True\<rparr>,
          index' + unat size * 8))"

text \<open>What \<open>Init\<close> establishes and \<open>Insert\<close> keeps.\<close>

definition bf_initialized :: "BloomFilter \<Rightarrow> bool" where
  "bf_initialized bf \<longleftrightarrow>
     length (bf_seed bf) = unat (bf_hash_num bf) \<and>
     bf_size bf = bf_length bf div 64 + 1 \<and>
     length (bf_data bf) = unat (bf_size bf)"

text \<open>
  The filter used in the examples: 100 bits, the two seeds 3 and 5, and the key \<open>k\<close>
  inserted, which sets bit 7 under either seed.
\<close>

definition bf0 :: BloomFilter where
  "bf0 = \<lparr>bf_length = 100, bf_hash_num = 2, bf_seed = [3, 5], bf_data = [128, 0],
          bf_size = 2, bf_loaded = False\<rparr>"

section \<open>The block cache (lsm/block\_cache.hpp)\<close>

record CacheBlock =
  cb_data :: "byte list"
  cb_sst_id :: size_t
  cb_block_offset :: size_t
  cb_access_time :: "64 word"
  cb_hit_count :: size_t

text \<open>
  \<open>Put\<close> computes \<open>double utilization = static_cast<double>(data.size()) / min_block_size\<close>
  and rejects the block when \<open>utilization < min_utilization\<close>.  The outcome of these two
  lines of \<open>double\<close> arithmetic, as a function of \<open>data.size()\<close>, is the field
  \<open>utilization_low\<close> of the configuration: every statement below holds whatever that
  function is.
\<close>

record Config =
  max_capacity :: size_t
  min_block_size :: size_t
  max_block_size :: size_t
  max_block_count :: size_t
  utilization_low :: "size_t \<Rightarrow> bool"

record Stats =
  total_access :: size_t
  hit_count :: size_t
  miss_count :: size_t
  rejected_count :: size_t
  evicted_count :: size_t
  current_size :: size_t
  current_count :: size_t

text \<open>
  The blocks are shared between the hash map and the LRU list through \<open>shared_ptr\<close>: both
  hold addresses into \<open>cache_blocks\<close>.  The front of \<open>lru_list\<close> is the most recently
  used block; \<open>next_block\<close> is the address the next \<open>make_shared\<close> returns.
\<close>

record BlockCache =
  config :: Config
  cache_map :: "64 word \<Rightarrow> ptr option"
  cache_blocks :: "ptr \<Rightarrow> CacheBlock option"
  lru_list :: "ptr list"
  stats :: Stats
  access_counter :: "64 word"
  next_block :: ptr

definition BlockCache_new :: "Config \<Rightarrow> BlockCache" where
  "BlockCache_new cfg =
     \<lparr>config = cfg, cache_map = Map.empty, cache_blocks = Map.empty, lru_list = [],
      stats = \<lparr>total_access = 0, hit_count = 0, miss_count = 0, rejected_count = 0,
                evicted_count = 0, current_size = 0, current_count = 0\<rparr>,
      access_counter = 0, next_block = 0\<rparr>"

definition MakeKey :: "size_t \<Rightarrow> size_t \<Rightarrow> 64 word" where
  "MakeKey sst_id block_offset = push_bit 32 sst_id OR block_offset"

text \<open>\<open>std::list::remove\<close> erases every element equal to its argument.\<close>

definition MoveToFront :: "ptr \<Rightarrow> BlockCache \<Rightarrow> BlockCache" where
  "MoveToFront block c = c\<lparr>lru_list := block # removeAll block (lru_list c)\<rparr>"

definition RemoveBlock :: "ptr \<Rightarrow> CacheBlock \<Rightarrow> BlockCache \<Rightarrow> BlockCache" where
  "RemoveBlock block b c =
     c\<lparr>lru_list := removeAll block (lru_list c),
       stats := (stats c)\<lparr>current_size := current_size (stats c) - word_of_nat (length (cb_data b)),
                          current_count := current_count (stats c) - 1\<rparr>\<rparr>"

text \<open>
  \<open>Get\<close>: a hit counts, stamps the block and moves it to the front; the result is the
  bytes of the block.
\<close>

definition bc_Get :: "size_t \<Rightarrow> size_t \<Rightarrow> BlockCache \<Rightarrow> fault + (byte list option \<times> BlockCache)" where
  "bc_Get sst_id block_offset c =
     (case cache_map c (MakeKey sst_id block_offset) of
        Some block \<Rightarrow>
          (case cache_blocks c block of
             None \<Rightarrow> Inl BadPointer
           | Some b \<Rightarrow>
               let ac = access_counter c + 1;
                   c1 = c\<lparr>cache_blocks := (cache_blocks c)(block \<mapsto>
                              b\<lparr>cb_hit_count := cb_hit_count b + 1, cb_access_time := ac\<rparr>),
                          access_counter := ac\<rparr>;
                   c2 = MoveToFront block c1
               in Inr (Some (cb_data b),
                       c2\<lparr>stats := (stats c2)\<lparr>hit_count := hit_count (stats c2) + 1,
                                                total_access := total_access (stats c2) + 1\<rparr>\<rparr>))
      | None \<Rightarrow>
          Inr (None, c\<lparr>stats := (stats c)\<lparr>miss_count := miss_count (stats c) + 1,
                                          total_access := total_access (stats c) + 1\<rparr>\<rparr>))"

definition bc_Remove :: "size_t \<Rightarrow> size_t \<Rightarrow> BlockCache \<Rightarrow> fault + (bool \<times> BlockCache)" where
  "bc_Remove sst_id block_offset c =
     (let key = MakeKey sst_id block_offset
      in case cache_map c key of
           Some block \<Rightarrow>
             (case cache_blocks c block of
                None \<Rightarrow> Inl BadPointer
              | Some b \<Rightarrow>
                  let c1 = RemoveBlock block b c
                  in Inr (True, c1\<lparr>cache_map := (cache_map c1)(key := None)\<rparr>))
         | None \<Rightarrow> Inr (False, c))"

definition bc_Clear :: "BlockCache \<Rightarrow> BlockCache" where
  "bc_Clear c = c\<lparr>cache_map := Map.empty, lru_list := [],
                  stats := (stats c)\<lparr>current_size := 0, current_count := 0\<rparr>\<rparr>"

definition over_limit :: "size_t \<Rightarrow> BlockCache \<Rightarrow> bool" where
  "over_limit new_block_size c \<longleftrightarrow>
     current_size (stats c) + new_block_size > max_capacity (config c) \<or>
     (max_block_count (config c) > 0 \<and> current_count (stats c) \<ge> max_block_count (config c))"

definition evict_one :: "ptr \<Rightarrow> CacheBlock \<Rightarrow> BlockCache \<Rightarrow> BlockCache" where
  "evict_one lru_block b c =
     (let key = MakeKey (cb_sst_id b) (cb_block_offset b);
          c1 = RemoveBlock lru_block b c;
          c2 = c1\<lparr>cache_map := (cache_map c1)(key := None)\<rparr>
      in c2\<lparr>stats := (stats c2)\<lparr>evicted_count := evicted_count (stats c2) + 1\<rparr>\<rparr>)"

function EvictIfNeeded :: "size_t \<Rightarrow> BlockCache \<Rightarrow> fault + BlockCache" where
  "EvictIfNeeded new_block_size c =
     (if over_limit new_block_size c
      then (if lru_list c = [] then Inr c
            else (case cache_blocks c (last (lru_list c)) of
                    None \<Rightarrow> Inl BadPointer
                  | Some b \<Rightarrow> EvictIfNeeded new_block_size (evict_one (last (lru_list c)) b c)))
      else Inr c)"
  by pat_completeness auto
termination
  by (relation "measure (\<lambda>(n, c). length (lru_list c))")
     (auto simp: evict_one_def RemoveBlock_def Let_def intro!: length_removeAll_less)

definition bc_Put :: "size_t \<Rightarrow> size_t \<Rightarrow> byte list \<Rightarrow> BlockCache \<Rightarrow> fault + (bool \<times> BlockCache)" where
  "bc_Put sst_id block_offset dat c =
     (if dat = [] then Inr (False, c)
      else if word_of_nat (length dat) > max_block_size (config c)
      then Inr (False, c\<lparr>stats := (stats c)\<lparr>rejected_count := rejected_count (stats c) + 1\<rparr>\<rparr>)
      else if utilization_low (config c) (word_of_nat (length dat))
      then Inr (False, c\<lparr>stats := (stats c)\<lparr>rejected_count := rejected_count (stats c) + 1\<rparr>\<rparr>)
      else let key = MakeKey sst_id block_offset
           in (case cache_map c key of
                 Some block \<Rightarrow>
                   (case cache_blocks c block of
                      None \<Rightarrow> Inl BadPointer
                    | Some b \<Rightarrow>
                        let ac = access_counter c + 1;
                            c1 = c\<lparr>cache_blocks := (cache_blocks c)(block \<mapsto>
                                       b\<lparr>cb_data := dat, cb_access_time := ac\<rparr>),
                                   access_counter := ac\<rparr>
                        in Inr (True, MoveToFront block c1))
               | None \<Rightarrow>
                   (case EvictIfNeeded (word_of_nat (length dat)) c of
                      Inl f \<Rightarrow> Inl f
                    | Inr c1 \<Rightarrow>
                        let block_ptr = next_block c1;
                            ac = access_counter c1 + 1
                        in Inr (True,
                                c1\<lparr>cache_blocks := (cache_blocks c1)(block_ptr \<mapsto>
                                       \<lparr>cb_data = dat, cb_sst_id = sst_id,
                                        cb_block_offset = block_offset, cb_access_time = ac,
                                        cb_hit_count = 0\<rparr>),
                                    next_block := Suc block_ptr,
                                    access_counter := ac,
                                    cache_map := (cache_map c1)(key \<mapsto> block_ptr),
                                    lru_list := block_ptr # lru_list c1,
                                    stats := (stats c1)\<lparr>
                                       current_size := current_size (stats c1) + word_of_nat (length dat),
                                       current_count := current_count (stats c1) + 1\<rparr>\<rparr>))))"


definition cfg_two :: Config where
  "cfg_two = \<lparr>max_capacity = 10, min_block_size = 1, max_block_size = 8,
              max_block_count = 2, utilization_low = (\<lambda>n. n < 2)\<rparr>"

text \<open>
  In every cache the operations build, the LRU list holds each block once, and every
  address in the list or the map is a live block allocated before \<open>next_block\<close>.
\<close>

definition cache_wf :: "BlockCache \<Rightarrow> bool" where
  "cache_wf c \<longleftrightarrow>
     distinct (lru_list c) \<and>
     (\<forall>p \<in> set (lru_list c). cache_blocks c p \<noteq> None \<and> p < next_block c) \<and>
     (\<forall>k p. cache_map c k = Some p \<longrightarrow> cache_blocks c p \<noteq> None \<and> p < next_block c)"





definition block4 :: "byte list" where
  "block4 = [1, 2, 3, 4]"

definition block6 :: "byte list" where
  "block6 = [1, 2, 3, 4, 5, 6]"


text \<open>
  The cache after \<open>Put(1, 0, block4)\<close> and \<open>Put(1, 1, block6)\<close> into an empty one: two
  blocks, ten bytes, the block of offset 1 used last.
\<close>

definition cache_ab :: BlockCache where
  "cache_ab =
     \<lparr>config = cfg_two,
      cache_map = Map.empty(MakeKey 1 0 \<mapsto> 0, MakeKey 1 1 \<mapsto> 1),
      cache_blocks = Map.empty(
         0 \<mapsto> \<lparr>cb_data = block4, cb_sst_id = 1, cb_block_offset = 0, cb_access_time = 1,
                cb_hit_count = 0\<rparr>,
         1 \<mapsto> \<lparr>cb_data = block6, cb_sst_id = 1, cb_block_offset = 1, cb_access_time = 2,
                cb_hit_count = 0\<rparr>),
      lru_list = [1, 0],
      stats = \<lparr>total_access = 0, hit_count = 0, miss_count = 0, rejected_count = 0,
                evicted_count = 0, current_size = 10, current_count = 2\<rparr>,
      access_counter = 2, next_block = 2\<rparr>"
section \<open>SSTs, levels and compaction (lsm/manifest.hpp, lsm/sst.hpp)\<close>

text \<open>
  An SST is represented by its id and by the sequence of entries its iterator yields, in
  file order.  The file layout, the memory mapping and the Bloom filter that
  \<open>DataBlockIndex::Get\<close> consults before its search are not part of this representation.
\<close>

type_synonym entry = "string \<times> string"

record SST =
  sst_id :: int
  sst_entries :: "entry list"

text \<open>
  \<open>DataBlockIndex::Get\<close>: the lower-bound binary search over the entries of the block,
  then the comparison with the key found there.
\<close>

function block_search :: "entry list \<Rightarrow> string \<Rightarrow> nat \<Rightarrow> nat \<Rightarrow> nat" where
  "block_search es k l r =
     (if l < r
      then (if fst (es ! ((l + r) div 2)) < k
            then block_search es k ((l + r) div 2 + 1) r
            else block_search es k l ((l + r) div 2))
      else r)"
  by pat_completeness auto
termination
  by (relation "measure (\<lambda>(es, k, l, r). r - l)") auto

definition DataBlock_Get :: "entry list \<Rightarrow> string \<Rightarrow> string option" where
  "DataBlock_Get es k =
     (let r = block_search es k 0 (length es)
      in if r = length es \<or> fst (es ! r) \<noteq> k then None else Some (snd (es ! r)))"

text \<open>
  \<open>SST::Get\<close> for the single data block the writers produce: the index search selects the
  block unless its first key is above the key looked up.
\<close>

definition SST_Get :: "SST \<Rightarrow> string \<Rightarrow> string option" where
  "SST_Get sst k =
     (case sst_entries sst of
        [] \<Rightarrow> None
      | e # es \<Rightarrow> if fst e > k then None else DataBlock_Get (e # es) k)"

record Level =
  level_no :: nat
  ssts :: "SST list"

text \<open>\<open>Level::Get\<close>: newest first on level 0, binary search on the first keys elsewhere.\<close>

fun level0_Get :: "SST list \<Rightarrow> string \<Rightarrow> string option" where
  "level0_Get [] k = None"
| "level0_Get (s # rest) k = (case SST_Get s k of Some v \<Rightarrow> Some v | None \<Rightarrow> level0_Get rest k)"

function level_search :: "SST list \<Rightarrow> string \<Rightarrow> nat \<Rightarrow> nat \<Rightarrow> fault + nat" where
  "level_search ss k l r =
     (if l < r
      then (case sst_entries (ss ! ((l + r) div 2)) of
              [] \<Rightarrow> Inl OutOfRange
            | e # es \<Rightarrow>
                if fst e > k then level_search ss k l ((l + r) div 2)
                else level_search ss k ((l + r) div 2 + 1) r)
      else Inr l)"
  by pat_completeness auto
termination
  by (relation "measure (\<lambda>(ss, k, l, r). r - l)") auto

definition Level_Get :: "Level \<Rightarrow> string \<Rightarrow> fault + string option" where
  "Level_Get lv k =
     (if level_no lv = 0 then Inr (level0_Get (rev (ssts lv)) k)
      else (case level_search (ssts lv) k 0 (length (ssts lv)) of
              Inl f \<Rightarrow> Inl f
            | Inr l \<Rightarrow> if l > 0 then Inr (SST_Get (ssts lv ! (l - 1)) k) else Inr None))"

record Manifest =
  version :: size_t
  levels :: "Level list"
  max_sst_id :: size_t

fun levels_Get :: "Level list \<Rightarrow> string \<Rightarrow> fault + string option" where
  "levels_Get [] k = Inr None"
| "levels_Get (lv # rest) k =
     (case Level_Get lv k of
        Inl f \<Rightarrow> Inl f
      | Inr (Some v) \<Rightarrow> Inr (Some v)
      | Inr None \<Rightarrow> levels_Get rest k)"

definition Manifest_Get :: "Manifest \<Rightarrow> string \<Rightarrow> fault + string option" where
  "Manifest_Get m k = levels_Get (levels m) k"

subsection \<open>The merge heap\<close>

text \<open>
  \<open>SizeTieredCompactionStruct\<close>: an iterator that stands on an entry, represented by that
  entry and the entries after it, and the secondary key.  Only iterators that stand on an
  entry are ever put into the heap.
\<close>

record src =
  src_cur :: entry
  src_rest :: "entry list"
  second_value :: nat

text \<open>\<open>operator<\<close> of the struct, as written.\<close>

definition less_src :: "src \<Rightarrow> src \<Rightarrow> bool" where
  "less_src lhs rhs =
     (if fst (src_cur lhs) = fst (src_cur rhs) then second_value lhs > second_value rhs
      else fst (src_cur lhs) > fst (src_cur rhs))"

text \<open>
  \<open>std::priority_queue\<close> is a bag whose \<open>top\<close> is an element no other element is above
  in the sense of \<open>operator<\<close>; \<open>pop\<close> removes that element.
\<close>

fun pq_top_from :: "src \<Rightarrow> src list \<Rightarrow> src" where
  "pq_top_from best [] = best"
| "pq_top_from best (x # xs) = pq_top_from (if less_src best x then x else best) xs"

text \<open>An iterator on the first entry of an SST; an SST without entries has none.\<close>

definition sst_begin :: "SST \<Rightarrow> nat \<Rightarrow> fault + src" where
  "sst_begin sst v =
     (case sst_entries sst of
        [] \<Rightarrow> Inl OutOfRange
      | e # es \<Rightarrow> Inr \<lparr>src_cur = e, src_rest = es, second_value = v\<rparr>)"

text \<open>
  \<open>SST::Iterator::operator++\<close>.  An SST has one data block: every constructor writes
  the block count 1.  Inside the block the operator steps to the next entry.  On leaving
  the last entry it moves the block iterator to \<open>end()\<close> and then evaluates
  \<open>data_block_index_it_->Get().data_index().begin()\<close> on it: a read one element past the
  end of the vector of blocks.  What was read is stored in the entry iterator and never
  looked at again, because the iterator now converts to \<open>false\<close> and is dropped by the
  merge loop.  The read itself has no defined behaviour; \<open>end_deref\<close> says how it ends:
  \<open>Detected\<close> where the access is checked and stops the program, \<open>Unnoticed\<close> where it
  returns some value.  The result \<open>None\<close> is the iterator that converts to \<open>false\<close>.
\<close>

datatype end_deref = Detected | Unnoticed

definition Iterator_inc :: "end_deref \<Rightarrow> src \<Rightarrow> fault + src option" where
  "Iterator_inc d it =
     (case src_rest it of
        e # es \<Rightarrow> Inr (Some (it\<lparr>src_cur := e, src_rest := es\<rparr>))
      | [] \<Rightarrow> (case d of Detected \<Rightarrow> Inl OutOfRange | Unnoticed \<Rightarrow> Inr None))"

text \<open>
  The merge loop: take the top, keep its entry unless the entry kept last has the same
  key, advance the iterator and push it back while it stands on an entry.
\<close>

function merge_loop :: "end_deref \<Rightarrow> src list \<Rightarrow> entry list \<Rightarrow> fault + entry list" where
  "merge_loop d [] entries = Inr entries"
| "merge_loop d (x # xs) entries =
     (let data = pq_top_from x xs;
          q1 = remove1 data (x # xs);
          entries1 = (if entries = [] \<or> fst (last entries) \<noteq> fst (src_cur data)
                      then entries @ [src_cur data] else entries)
      in case Iterator_inc d data of
           Inl f \<Rightarrow> Inl f
         | Inr None \<Rightarrow> merge_loop d q1 entries1
         | Inr (Some it) \<Rightarrow> merge_loop d (q1 @ [it]) entries1)"
  by pat_completeness auto
termination
proof (relation "measure (\<lambda>(d, q, entries). sum_list (map (\<lambda>s. Suc (length (src_rest s))) q))")
  show "wf (measure (\<lambda>(d, q, entries). sum_list (map (\<lambda>s. Suc (length (src_rest s))) q)))"
    by simp
next
  have mem: "pq_top_from b ys \<in> set (b # ys)" for b ys
    by (induction ys arbitrary: b) auto
  have dec: "sum_list (map (\<lambda>s. Suc (length (src_rest s))) (remove1 t q))
               + Suc (length (src_rest t))
             = sum_list (map (\<lambda>s. Suc (length (src_rest s))) q)" if "t \<in> set q" for t q
    using that by (induction q) auto
  fix d x xs entries data q1 entries1
  assume t: "data = pq_top_from x xs" and q: "q1 = remove1 data (x # xs)"
  have m: "data \<in> set (x # xs)" unfolding t by (rule mem)
  {
    fix r assume "Iterator_inc d data = Inr r" "r = None"
    show "((d, q1, entries1), d, x # xs, entries)
        \<in> measure (\<lambda>(d, q, entries). sum_list (map (\<lambda>s. Suc (length (src_rest s))) q))"
      using dec[OF m] q by simp
  }
  {
    fix r it assume "Iterator_inc d data = Inr r" "r = Some it"
    then have "length (src_rest it) < length (src_rest data)"
      by (auto simp: Iterator_inc_def split: list.splits end_deref.splits)
    then show "((d, q1 @ [it], entries1), d, x # xs, entries)
        \<in> measure (\<lambda>(d, q, entries). sum_list (map (\<lambda>s. Suc (length (src_rest s))) q))"
      using dec[OF m] q by simp
  }
qed

subsection \<open>Compacting one level into the next\<close>

text \<open>
  The first loop of \<open>SizeTieredCompaction(level, id)\<close> over the SSTs of the level, newest
  first: each gets the next secondary key, and \<open>min_key\<close> and \<open>max_key\<close> follow the first
  and last keys, an empty view standing for ``not set yet''.
\<close>

fun collect_level :: "SST list \<Rightarrow> src list \<Rightarrow> nat \<Rightarrow> string \<Rightarrow> string
                        \<Rightarrow> fault + (src list \<times> nat \<times> string \<times> string)" where
  "collect_level [] q v min_key max_key = Inr (q, v, min_key, max_key)"
| "collect_level (s # rest) q v min_key max_key =
     (case sst_begin s v of
        Inl f \<Rightarrow> Inl f
      | Inr it \<Rightarrow>
          let begin_key = fst (src_cur it);
              end_key = fst (last (sst_entries s));
              min_key1 = (if min_key = [] \<or> begin_key < min_key then begin_key else min_key);
              max_key1 = (if max_key = [] \<or> end_key > max_key then end_key else max_key)
          in collect_level rest (q @ [it]) (Suc v) min_key1 max_key1)"

text \<open>
  The second loop, over the SSTs of the next level with their positions: an SST entirely
  below \<open>min_key\<close> moves \<open>insert_l\<close>, the first one entirely above \<open>max_key\<close> sets
  \<open>insert_r\<close> and ends the loop, every other one joins the heap.
\<close>

fun collect_next :: "SST list \<Rightarrow> nat \<Rightarrow> string \<Rightarrow> string \<Rightarrow> int \<Rightarrow> int \<Rightarrow> src list \<Rightarrow> nat
                       \<Rightarrow> fault + (int \<times> int \<times> src list \<times> nat)" where
  "collect_next [] i min_key max_key insert_l insert_r q v = Inr (insert_l, insert_r, q, v)"
| "collect_next (s # rest) i min_key max_key insert_l insert_r q v =
     (case sst_begin s v of
        Inl f \<Rightarrow> Inl f
      | Inr it \<Rightarrow>
          if fst (last (sst_entries s)) < min_key
          then collect_next rest (Suc i) min_key max_key (int i) insert_r q v
          else if fst (src_cur it) > max_key
          then Inr (insert_l, int i, q, v)
          else collect_next rest (Suc i) min_key max_key insert_l insert_r (q @ [it]) (Suc v))"

text \<open>
  \<open>Manifest::SizeTieredCompaction(level, id)\<close>.  The constructor \<open>SST(entries, id)\<close>
  reads the first element of \<open>entries\<close>, which an empty vector does not have.
\<close>

definition SizeTieredCompaction_level :: "end_deref \<Rightarrow> nat \<Rightarrow> int \<Rightarrow> Manifest \<Rightarrow> fault + Manifest" where
  "SizeTieredCompaction_level d level new_id m =
     (if level < length (levels m)
      then (case collect_level (rev (ssts (levels m ! level))) [] 0 [] [] of
              Inl f \<Rightarrow> Inl f
            | Inr (q0, v0, min_key, max_key) \<Rightarrow>
                let lvs = (if Suc level = length (levels m)
                           then levels m @ [\<lparr>level_no = Suc level, ssts = []\<rparr>]
                           else levels m);
                    next_ssts = ssts (lvs ! Suc level)
                in (case collect_next next_ssts 0 min_key max_key (- 1) (int (length next_ssts)) q0 v0 of
                      Inl f \<Rightarrow> Inl f
                    | Inr (insert_l, insert_r, q, v) \<Rightarrow>
                        (case merge_loop d q [] of
                           Inl f \<Rightarrow> Inl f
                         | Inr [] \<Rightarrow> Inl OutOfRange
                         | Inr (e # es) \<Rightarrow>
                             let new_sst = \<lparr>sst_id = new_id, sst_entries = e # es\<rparr>;
                                 new_ssts = take (nat (insert_l + 1)) next_ssts @ [new_sst]
                                            @ drop (nat insert_r) next_ssts;
                                 lvs1 = lvs[level := (lvs ! level)\<lparr>ssts := []\<rparr>];
                                 lvs2 = lvs1[Suc level := (lvs1 ! Suc level)\<lparr>ssts := new_ssts\<rparr>]
                             in Inr (m\<lparr>levels := lvs2,
                                      max_sst_id := (if word_of_int new_id > max_sst_id m
                                                     then word_of_int new_id else max_sst_id m)\<rparr>))))
      else Inl OutOfRange)"

text \<open>
  The overlay the specification compares with: among sources listed in order of
  precedence, the first one that holds the key decides.
\<close>

fun overlay_lookup :: "entry list list \<Rightarrow> string \<Rightarrow> string option" where
  "overlay_lookup [] k = None"
| "overlay_lookup (es # rest) k = (case map_of es k of Some v \<Rightarrow> Some v | None \<Rightarrow> overlay_lookup rest k)"

text \<open>The SSTs of the next level that the second loop puts into the heap.\<close>

fun overlapping :: "SST list \<Rightarrow> string \<Rightarrow> string \<Rightarrow> SST list" where
  "overlapping [] min_key max_key = []"
| "overlapping (s # rest) min_key max_key =
     (case sst_entries s of
        [] \<Rightarrow> []
      | e # es \<Rightarrow>
          if fst (last (e # es)) < min_key then overlapping rest min_key max_key
          else if fst e > max_key then []
          else s # overlapping rest min_key max_key)"

text \<open>The SSTs the next level holds before the compaction; none when the level is new.\<close>

definition next_level_ssts :: "nat \<Rightarrow> Manifest \<Rightarrow> SST list" where
  "next_level_ssts level m =
     (if Suc level < length (levels m) then ssts (levels m ! Suc level) else [])"

text \<open>An SST as the writers produce it: at least one entry, keys strictly ascending.\<close>

definition sst_ok :: "SST \<Rightarrow> bool" where
  "sst_ok s \<longleftrightarrow> sst_entries s \<noteq> [] \<and> sorted_wrt (<) (map fst (sst_entries s))"

text \<open>
  Notions for stating what the merge computes: the entries an iterator still has to yield,
  and, for a key, the pairs of secondary key and value under which the iterators in the
  heap hold it.  A value wins a key when it is held under the least secondary key.
\<close>

definition src_entries :: "src \<Rightarrow> entry list" where
  "src_entries s = src_cur s # src_rest s"

definition holders :: "src list \<Rightarrow> string \<Rightarrow> (nat \<times> string) set" where
  "holders q k = {(second_value x, v) |x v. x \<in> set q \<and> (k, v) \<in> set (src_entries x)}"

definition wins :: "src list \<Rightarrow> string \<Rightarrow> string \<Rightarrow> bool" where
  "wins q k v \<longleftrightarrow> (\<exists>s. (s, v) \<in> holders q k \<and> (\<forall>(s', v') \<in> holders q k. s \<le> s'))"

definition heap_inv :: "src list \<Rightarrow> entry list \<Rightarrow> bool" where
  "heap_inv q out \<longleftrightarrow>
     (\<forall>x \<in> set q. sorted_wrt (<) (map fst (src_entries x))) \<and>
     distinct (map second_value q) \<and>
     sorted_wrt (<) (map fst out) \<and>
     (\<forall>x \<in> set q. \<forall>k \<in> fst ` set (src_entries x). \<forall>k' \<in> fst ` set out. k' \<le> k)"

text \<open>
  What the loop pushes back after taking the top, where it goes on: the advanced iterator,
  if any.
\<close>

definition advance :: "src \<Rightarrow> src list" where
  "advance t = (case src_rest t of [] \<Rightarrow> [] | e # es \<Rightarrow> [t\<lparr>src_cur := e, src_rest := es\<rparr>])"

definition keep :: "entry list \<Rightarrow> entry \<Rightarrow> entry list" where
  "keep entries e = (if entries = [] \<or> fst (last entries) \<noteq> fst e then entries @ [e] else entries)"

definition heap_size :: "src list \<Rightarrow> nat" where
  "heap_size q = sum_list (map (\<lambda>s. Suc (length (src_rest s))) q)"

text \<open>
  A manifest used in the examples: two SSTs on level 0, the newer one holding the empty
  key, above a level 1 with two SSTs of disjoint ranges in ascending order.
\<close>

definition m_empty_key :: Manifest where
  "m_empty_key =
     \<lparr>version = 4,
      levels = [\<lparr>level_no = 0,
                 ssts = [\<lparr>sst_id = 3, sst_entries = [(''b'', ''1'')]\<rparr>,
                         \<lparr>sst_id = 4, sst_entries = [([], ''2'')]\<rparr>]\<rparr>,
                \<lparr>level_no = 1,
                 ssts = [\<lparr>sst_id = 1, sst_entries = [(''a'', ''0'')]\<rparr>,
                         \<lparr>sst_id = 2, sst_entries = [(''aa'', ''0'')]\<rparr>]\<rparr>],
      max_sst_id = 4\<rparr>"

text \<open>A manifest whose level 0 overlaps one SST of level 1.\<close>

definition m_overlap :: Manifest where
  "m_overlap =
     \<lparr>version = 5,
      levels = [\<lparr>level_no = 0,
                 ssts = [\<lparr>sst_id = 5, sst_entries = [(''a'', ''1''), (''c'', ''1'')]\<rparr>,
                         \<lparr>sst_id = 6, sst_entries = [(''b'', ''2''), (''c'', ''2'')]\<rparr>]\<rparr>,
                \<lparr>level_no = 1,
                 ssts = [\<lparr>sst_id = 1, sst_entries = [(''0'', ''0'')]\<rparr>,
                         \<lparr>sst_id = 3, sst_entries = [(''b'', ''0''), (''d'', ''0'')]\<rparr>,
                         \<lparr>sst_id = 4, sst_entries = [(''x'', ''0'')]\<rparr>]\<rparr>],
      max_sst_id = 6\<rparr>"

section \<open>The storage engine (db.hpp)\<close>

record DBConfig =
  memtable_max_size :: size_t

text \<open>
  The engine: the active MemTable, the queue of immutable ones (oldest first) and the
  queue of manifests, whose last element is the current one.  The flush worker, which
  turns immutable MemTables into SSTs in the background, is not one of the calls below.
\<close>

record DB =
  db_config :: DBConfig
  memtable :: ConcurrentSkipList
  inmemtables :: "ConcurrentSkipList list"
  manifest_queue :: "Manifest list"

text \<open>The constructor, without a manifest file on disk.\<close>

definition DB_new :: "DBConfig \<Rightarrow> DB" where
  "DB_new cfg =
     \<lparr>db_config = cfg, memtable = skiplist_new, inmemtables = [],
      manifest_queue = [\<lparr>version = 1, levels = [\<lparr>level_no = 0, ssts = []\<rparr>], max_sst_id = 0\<rparr>]\<rparr>"

definition DBConfig_default :: DBConfig where
  "DBConfig_default = \<lparr>memtable_max_size = 4096 * 1024 - 1024 * 1024\<rparr>"

definition DB_Put :: "nat \<Rightarrow> string \<Rightarrow> string \<Rightarrow> 64 word list \<Rightarrow> DB \<Rightarrow> fault + (DB \<times> 64 word list)" where
  "DB_Put fuel k v draws db =
     (case sl_Put fuel k v draws (memtable db) of
        Inl f \<Rightarrow> Inl f
      | Inr (mt, draws') \<Rightarrow>
          if sl_binary_size mt > memtable_max_size (db_config db)
          then Inr (db\<lparr>inmemtables := inmemtables db @ [mt], memtable := skiplist_new\<rparr>, draws')
          else Inr (db\<lparr>memtable := mt\<rparr>, draws'))"

fun inmemtables_Get :: "nat \<Rightarrow> ConcurrentSkipList list \<Rightarrow> string \<Rightarrow> fault + string option" where
  "inmemtables_Get fuel [] k = Inr None"
| "inmemtables_Get fuel (mt # rest) k =
     (case sl_Get fuel k mt of
        Inl f \<Rightarrow> Inl f
      | Inr (Some v) \<Rightarrow> Inr (Some v)
      | Inr None \<Rightarrow> inmemtables_Get fuel rest k)"

definition DB_Get :: "nat \<Rightarrow> string \<Rightarrow> DB \<Rightarrow> fault + string option" where
  "DB_Get fuel k db =
     (case sl_Get fuel k (memtable db) of
        Inl f \<Rightarrow> Inl f
      | Inr (Some v) \<Rightarrow> Inr (Some v)
      | Inr None \<Rightarrow>
          (case inmemtables_Get fuel (rev (inmemtables db)) k of
             Inl f \<Rightarrow> Inl f
           | Inr (Some v) \<Rightarrow> Inr (Some v)
           | Inr None \<Rightarrow>
               (case manifest_queue db of
                  [] \<Rightarrow> Inl OutOfRange
                | m # ms \<Rightarrow> Manifest_Get (last (m # ms)) k)))"


section \<open>Properties of the Raft node and its log\<close>

subsection \<open>Voting\<close>

text \<open>
  Claim C4.  The voter grants a RequestVote exactly when the request's term is not behind
  its own and, for a request of the voter's own term, the candidate's last log index is not
  behind the voter's log and the voter has not voted yet.  For a request of a higher term
  the vote is always granted and the voter ends as a Follower in the request's term with
  its vote given; a leader stepping down stops its replicators.  A request of the voter's
  own term from a candidate with a shorter log is rejected.
\<close>

theorem Vote_grants_iff:
  "(fst (Vote now req pod) \<longleftrightarrow>
      pod_term pod \<le> req_term req \<and>
      (req_term req = pod_term pod \<longrightarrow>
         index (raft_log pod) \<le> req_index req \<and> \<not> voted pod))
   \<and> (pod_term pod < req_term req \<longrightarrow>
        Vote now req pod =
          (True, pod\<lparr>last_time := now, pod_term := req_term req,
                     followers := (if status pod = Leader then map Stop (followers pod)
                                   else followers pod),
                     status := Follower, voted := True\<rparr>))
   \<and> (req_term req = pod_term pod \<and> req_index req < index (raft_log pod) \<longrightarrow>
        \<not> fst (Vote now req pod))"
  by (auto simp: Vote_def Let_def)

theorem Vote_grants_iff_witness:
  "pod_term pod0 < req_term \<lparr>req_id = 2, req_term = 4, req_index = 0\<rparr>
   \<and> Vote 9 \<lparr>req_id = 2, req_term = 4, req_index = 0\<rparr> pod0 =
       (True, pod0\<lparr>last_time := 9, pod_term := 4,
                   followers := [\<lparr>nextindex = 5, rep_stop = True\<rparr>],
                   status := Follower, voted := True\<rparr>)
   \<and> req_term \<lparr>req_id = 2, req_term = 3, req_index = 4\<rparr> = pod_term pod0
   \<and> req_index \<lparr>req_id = 2, req_term = 3, req_index = 4\<rparr> < index (raft_log pod0)
   \<and> \<not> fst (Vote 9 \<lparr>req_id = 2, req_term = 3, req_index = 4\<rparr> pod0)
   \<and> index (raft_log pod0) \<le> req_index \<lparr>req_id = 2, req_term = 3, req_index = 5\<rparr>
   \<and> \<not> voted pod0
   \<and> fst (Vote 9 \<lparr>req_id = 2, req_term = 3, req_index = 5\<rparr> pod0)"
  using Vote_grants_iff [of 9 "\<lparr>req_id = 2, req_term = 4, req_index = 0\<rparr>" pod0]
        Vote_grants_iff [of 9 "\<lparr>req_id = 2, req_term = 3, req_index = 4\<rparr>" pod0]
        Vote_grants_iff [of 9 "\<lparr>req_id = 2, req_term = 3, req_index = 5\<rparr>" pod0]
  by (simp add: pod0_def log5_def Stop_def)

subsection \<open>Appending to the log\<close>

lemma ring_consts: "ring_buffer_size = 262144" "ring_buffer_size_musk = 262143"
  by (simp_all add: ring_buffer_size_def ring_buffer_size_musk_def)

text \<open>
  With the tail at slot 0, where the constructor puts it and where it stays unless
  \<open>PopFront\<close> is called, a ring that is not full has its next slot inside the array.
\<close>

lemma next_slot_in_array:
  assumes "rb_tail q = 0" "rb_head q < ring_buffer_size" "\<not> rb_full q"
  shows "rb_head q + 1 < ring_buffer_size"
proof -
  have h: "unat (rb_head q) < 262144"
    using assms(2) by (simp add: ring_consts word_less_nat_alt)
  then have u: "unat (rb_head q + 1) = unat (rb_head q) + 1"
    by (simp add: unat_word_ariths)
  have "rb_head q + 1 \<noteq> 262144"
  proof
    assume e: "rb_head q + 1 = 262144"
    have "(262144 :: size_t) AND 262143 = 0" by simp
    with e assms(1,3) show False by (simp add: rb_full_def ring_consts)
  qed
  then have "unat (rb_head q + 1) \<noteq> 262144"
  proof (rule contrapos_nn)
    assume "unat (rb_head q + 1) = 262144"
    then have "word_of_nat (unat (rb_head q + 1)) = (word_of_nat 262144 :: size_t)" by simp
    then show "rb_head q + 1 = 262144" by simp
  qed
  with h u show ?thesis by (simp add: ring_consts word_less_nat_alt)
qed

text \<open>
  In every state of a log in use the stop flag is down, the tail of the ring is at slot 0
  and the head is inside the array.
\<close>

lemma Truncate_head:
  assumes "rb_tail q = 0"
  shows "rb_tail (snd (Truncate n q)) = 0 \<and> rb_head (snd (Truncate n q)) \<le> rb_head q"
proof (cases "rb_tail q = rb_head q")
  case True
  then show ?thesis using assms by (simp add: Truncate_def)
next
  case False
  have "min n (rb_head q) \<le> rb_head q" by simp
  then have "rb_head q - min n (rb_head q) \<le> rb_head q" by (simp add: word_sub_le)
  then show ?thesis using False assms by (simp add: Truncate_def Let_def)
qed

lemma log_reachable_ring:
  "log_reachable s \<Longrightarrow>
   \<not> stop s \<and> rb_tail (queue s) = 0 \<and> rb_head (queue s) < ring_buffer_size"
proof (induction rule: log_reachable.induct)
  case (by_init v)
  show ?case by (simp add: RaftLog_init_def ring_consts)
next
  case (by_Put s k v t r s')
  then show ?case
    by (auto simp: Put_def PushBack_def Let_def split: if_splits)
next
  case (by_Put_entry s e ok s')
  then show ?case
    by (auto simp: Put_entry_def PushBack_def Let_def split: if_splits)
next
  case (by_Reset s expect_index)
  then have t: "rb_tail (queue s) = 0" and h: "rb_head (queue s) < ring_buffer_size"
    and n: "\<not> stop s" by simp_all
  show ?case
  proof (cases "index s > expect_index")
    case False
    then show ?thesis using by_Reset.IH by (simp add: Reset_def)
  next
    case True
    let ?q = "snd (Truncate (index s - expect_index) (queue s))"
    from Truncate_head[OF t, of "index s - expect_index"]
    have "rb_tail ?q = 0" "rb_head ?q \<le> rb_head (queue s)" by simp_all
    then have "rb_tail ?q = 0" "rb_head ?q < ring_buffer_size" using h by auto
    then show ?thesis using True n by (simp add: Reset_def Let_def split_beta)
  qed
next
  case (by_UpdateCommit s leader_commit)
  then show ?case by (simp add: UpdateCommit_def)
next
  case (by_applier_step s r s')
  then show ?case
    by (auto simp: applier_step_def Let_def split: if_splits sum.splits)
qed

lemma Put_on_ring:
  assumes "\<not> stop s" "rb_tail (queue s) = 0" "rb_head (queue s) < ring_buffer_size"
  shows "Put k v t s =
     (if rb_full (queue s) then Inr (None, s)
      else Inr (Some (index s + 1),
               s\<lparr>queue := (queue s)\<lparr>rb_data := (rb_data (queue s))(rb_head (queue s) + 1 :=
                      \<lparr>entry_term = t, entry_index = index s + 1, entry_key = k,
                       entry_value = v, entry_mode = 0, entry_commited = 0\<rparr>),
                    rb_head := rb_head (queue s) + 1\<rparr>,
                 index := index s + 1\<rparr>))"
proof (cases "rb_full (queue s)")
  case True
  then show ?thesis using assms(1) by (simp add: Put_def PushBack_def)
next
  case False
  from next_slot_in_array[OF assms(2,3) False]
  show ?thesis using False assms(1) by (simp add: Put_def PushBack_def Let_def)
qed

text \<open>
  Claim C6.  On a log in use, \<open>Put\<close> with a full ring fails and leaves the log exactly as
  it was; otherwise it stores the entry \<open>{index + 1, term, key, value}\<close> in the slot after
  the head, advances head and index by one and returns the new index, the commit index
  and the tail being unchanged.
\<close>

theorem RaftLog_Put_result:
  assumes "log_reachable s"
  shows "Put k v t s =
     (if rb_full (queue s) then Inr (None, s)
      else Inr (Some (index s + 1),
               s\<lparr>queue := (queue s)\<lparr>rb_data := (rb_data (queue s))(rb_head (queue s) + 1 :=
                      \<lparr>entry_term = t, entry_index = index s + 1, entry_key = k,
                       entry_value = v, entry_mode = 0, entry_commited = 0\<rparr>),
                    rb_head := rb_head (queue s) + 1\<rparr>,
                 index := index s + 1\<rparr>))"
  using log_reachable_ring[OF assms] by (intro Put_on_ring) simp_all

text \<open>
  A fresh log takes 262143 entries before its ring is full: after \<open>n\<close> of them the head
  and the index are \<open>n\<close>.
\<close>

lemma small_not_full:
  assumes "n < 262143"
  shows "(word_of_nat n + 1 :: size_t) AND 262143 \<noteq> 0"
proof -
  have a: "(word_of_nat n + 1 :: size_t) = word_of_nat (Suc n)" by simp
  have "(262143 :: size_t) = mask 18" by (simp add: mask_eq_exp_minus_1)
  then have "(word_of_nat (Suc n) :: size_t) AND 262143 = take_bit 18 (word_of_nat (Suc n))"
    by (simp add: take_bit_eq_mask)
  also have "\<dots> = word_of_nat (take_bit 18 (Suc n))"
    by (simp add: of_nat_take_bit del: of_nat_Suc)
  also have "take_bit 18 (Suc n) = Suc n"
    using assms by (simp add: take_bit_nat_eq_self_iff)
  finally have "(word_of_nat n + 1 :: size_t) AND 262143 = word_of_nat (Suc n)"
    unfolding a .
  moreover have "(word_of_nat (Suc n) :: size_t) \<noteq> 0"
  proof
    assume "(word_of_nat (Suc n) :: size_t) = 0"
    then have "unat (word_of_nat (Suc n) :: size_t) = 0" by simp
    moreover have "unat (word_of_nat (Suc n) :: size_t) = Suc n"
      using assms by (simp add: unat_of_nat del: of_nat_Suc)
    ultimately show False by simp
  qed
  ultimately show ?thesis by simp
qed

lemma appended_facts:
  "n \<le> 262143 \<Longrightarrow>
   log_reachable (appended n) \<and> rb_head (queue (appended n)) = word_of_nat n
   \<and> index (appended n) = word_of_nat n \<and> commited (appended n) = 0"
proof (induction n)
  case 0
  show ?case by (simp add: log_reachable.by_init) (simp add: RaftLog_init_def)
next
  case (Suc n)
  then have lt: "n < 262143" and r: "log_reachable (appended n)"
    and h: "rb_head (queue (appended n)) = word_of_nat n"
    and i: "index (appended n) = word_of_nat n" and c: "commited (appended n) = 0"
    by simp_all
  note ring = log_reachable_ring[OF r]
  have nf: "\<not> rb_full (queue (appended n))"
    using small_not_full[OF lt] ring h by (simp add: rb_full_def ring_consts)
  from Put_on_ring[of "appended n" "''k''" "''v''" 1] ring nf
  obtain s' where p: "Put ''k'' ''v'' 1 (appended n) = Inr (Some (index (appended n) + 1), s')"
    and s': "rb_head (queue s') = rb_head (queue (appended n)) + 1"
       "index s' = index (appended n) + 1" "commited s' = commited (appended n)"
    by simp
  have a: "appended (Suc n) = s'" using p by simp
  have "log_reachable s'" using r p by (rule log_reachable.by_Put)
  then show ?case unfolding a using s' h i c by simp
qed

theorem RaftLog_Put_result_witness:
  "log_reachable (appended 262143) \<and> rb_full (queue (appended 262143))
   \<and> Put ''a'' ''b'' 7 (appended 262143) = Inr (None, appended 262143)
   \<and> log_reachable (appended 2) \<and> \<not> rb_full (queue (appended 2))
   \<and> (\<exists>s'. Put ''a'' ''b'' 7 (appended 2) = Inr (Some 3, s') \<and> index s' = 3
          \<and> rb_head (queue s') = 3 \<and> rb_tail (queue s') = 0 \<and> commited s' = 0
          \<and> entry_key (rb_data (queue s') 3) = ''a'' \<and> entry_index (rb_data (queue s') 3) = 3)"
proof -
  have f: "log_reachable (appended 262143)" "rb_head (queue (appended 262143)) = 262143"
    using appended_facts[of 262143] by simp_all
  have t: "rb_tail (queue (appended 262143)) = 0" using log_reachable_ring[OF f(1)] by simp
  have full: "rb_full (queue (appended 262143))"
    using f(2) t by (simp add: rb_full_def ring_consts)
  have g: "log_reachable (appended 2)" "rb_head (queue (appended 2)) = 2"
    "index (appended 2) = 2" "commited (appended 2) = 0"
    using appended_facts[of 2] by simp_all
  have t2: "rb_tail (queue (appended 2)) = 0" using log_reachable_ring[OF g(1)] by simp
  have nf: "\<not> rb_full (queue (appended 2))"
    using g(2) t2 by (simp add: rb_full_def ring_consts)
  show ?thesis
    using RaftLog_Put_result[OF f(1), of "''a''" "''b''" 7]
          RaftLog_Put_result[OF g(1), of "''a''" "''b''" 7] f(1) full g t2 nf
    by simp
qed

subsection \<open>Truncation and the append handler\<close>

lemma Truncate_enough:
  "n \<noteq> 0 \<Longrightarrow> n \<le> rb_head q - rb_tail q \<Longrightarrow>
   Truncate n q = (n, q\<lparr>rb_head := rb_head q - n\<rparr>)"
  by (auto simp: Truncate_def Let_def min_def)

text \<open>
  As long as the ring holds the entries \<open>start_index + 1 .. index\<close> and nothing below
  \<open>start_index\<close> is committed, resetting to the commit index removes exactly the
  uncommitted suffix.
\<close>

lemma Reset_to_commited:
  assumes lt: "commited s < index s"
    and sz: "rb_head (queue s) - rb_tail (queue s) = index s - start_index s"
    and st: "start_index s \<le> commited s"
  shows "Reset (commited s) s =
           s\<lparr>queue := (queue s)\<lparr>rb_head := rb_head (queue s) - (index s - commited s)\<rparr>,
             index := commited s\<rparr>"
proof -
  have n0: "index s - commited s \<noteq> 0" using lt by auto
  have le: "index s - commited s \<le> index s - start_index s"
    using lt st by (simp add: word_le_nat_alt word_less_nat_alt unat_sub)
  have "Truncate (index s - commited s) (queue s)
          = (index s - commited s,
             (queue s)\<lparr>rb_head := rb_head (queue s) - (index s - commited s)\<rparr>)"
    using Truncate_enough[OF n0, of "queue s"] le sz by simp
  then show ?thesis using lt by (simp add: Reset_def)
qed

text \<open>
  \<open>UpdateRaftLog\<close> taken by itself, on a log in any state.  For a single entry whose index
  is not \<open>index + 1\<close>: when the leader's commit index lies strictly between the log's
  commit index and its last index, the log is truncated to its commit index and the entry
  is tried again; in every other case the answer is -2 and the log is untouched.
\<close>

lemma UpdateRaftLog_alone:
  assumes mis: "entry_index e \<noteq> index s + 1"
    and sz: "rb_head (queue s) - rb_tail (queue s) = index s - start_index s"
    and st: "start_index s \<le> commited s"
  shows "(commited s < leader_commit \<and> leader_commit < index s \<longrightarrow>
            index (Reset (commited s) s) = commited s \<and>
            commited (Reset (commited s) s) = commited s \<and>
            (if entry_index e = commited s + 1
             then UpdateRaftLog [e] leader_commit s =
                    (case Put_entry e (Reset (commited s) s) of
                       Inl f \<Rightarrow> Inl f | Inr (ok, s2) \<Rightarrow> Inr (0, s2))
             else UpdateRaftLog [e] leader_commit s = Inr (- 2, Reset (commited s) s)))
       \<and> (\<not> (commited s < leader_commit \<and> leader_commit < index s) \<longrightarrow>
            UpdateRaftLog [e] leader_commit s = Inr (- 2, s))"
proof (intro conjI impI)
  assume a: "commited s < leader_commit \<and> leader_commit < index s"
  then have lt: "commited s < index s" by auto
  note R = Reset_to_commited[OF lt sz st]
  show "index (Reset (commited s) s) = commited s" by (simp add: R)
  show "commited (Reset (commited s) s) = commited s" by (simp add: R)
  show "if entry_index e = commited s + 1
        then UpdateRaftLog [e] leader_commit s =
               (case Put_entry e (Reset (commited s) s) of
                  Inl f \<Rightarrow> Inl f | Inr (ok, s2) \<Rightarrow> Inr (0, s2))
        else UpdateRaftLog [e] leader_commit s = Inr (- 2, Reset (commited s) s)"
    using a mis by (simp add: UpdateRaftLog_def R)
next
  assume "\<not> (commited s < leader_commit \<and> leader_commit < index s)"
  then show "UpdateRaftLog [e] leader_commit s = Inr (- 2, s)"
    using mis by (auto simp: UpdateRaftLog_def)
qed






subsection \<open>The ordering of the counters\<close>

text \<open>
  Claim C3 at the input that breaks it.  On a fresh log the four counters are ordered.  A
  replicated entry with index 1 that carries the leader's commit index 5 is accepted by
  \<open>Put(Entry&)\<close>, which takes the commit index over unbounded: afterwards
  \<open>commited = 5\<close> exceeds \<open>index = 1\<close>.
\<close>

theorem Put_entry_commited_exceeds_index:
  "log_ordered (RaftLog_init 0) \<and>
   (\<exists>s'. Put_entry entry1 (RaftLog_init 0) = Inr (True, s') \<and> index s' = 1 \<and> commited s' = 5
         \<and> \<not> log_ordered s')"
  by (simp add: Put_entry_def PushBack_def RaftLog_init_def rb_full_def ring_consts entry1_def
        log_ordered_def Let_def word_le_nat_alt)

text \<open>The other operations keep the ordering; \<open>UpdateCommit\<close> is the one that bounds by the index.\<close>

lemma UpdateCommit_log_ordered:
  "log_ordered s \<Longrightarrow> log_ordered (UpdateCommit lc s) \<and> commited s \<le> commited (UpdateCommit lc s)"
  by (auto simp: log_ordered_def UpdateCommit_def max_def min_def)

lemma applier_step_log_ordered:
  assumes "log_ordered s" "applier_step s = Inr (r, s')"
  shows "log_ordered s' \<and> last_append s \<le> last_append s' \<and> commited s' = commited s"
proof (cases "last_append s < commited s")
  case True
  then have a: "last_append s + 1 \<le> commited s" by (rule inc_le)
  have b: "last_append s \<le> last_append s + 1" using True by unat_arith
  from assms True a b show ?thesis
    by (auto simp: applier_step_def log_ordered_def Let_def split: sum.splits)
next
  case False
  with assms show ?thesis by (auto simp: applier_step_def)
qed

lemma Put_log_ordered:
  assumes "log_ordered s" "Put k v t s = Inr (r, s')" "index s \<noteq> - 1"
  shows "log_ordered s' \<and> commited s' = commited s \<and> last_append s' = last_append s"
proof -
  have "index s \<le> index s + 1"
    using assms(3) inc_less_eq_self_iff_eq [of "index s"] by auto
  with assms show ?thesis
    by (auto simp: Put_def PushBack_def log_ordered_def Let_def split: if_splits)
qed
section \<open>Properties of the skip list\<close>

subsection \<open>The random level\<close>

text \<open>
  \<open>RandLevel\<close> counts the leading values whose two low bits are zero and adds one.
\<close>

lemma RandLevel_loop_counts:
  "\<forall>s \<in> set ss. s AND 3 = 0 \<Longrightarrow> d AND 3 \<noteq> 0 \<Longrightarrow>
   RandLevel_loop (ss @ d # rest) level = Some (level + word_of_nat (length ss), rest)"
  by (induction ss arbitrary: level) (simp_all add: add.assoc add.commute)

lemma RandLevel_counts:
  "\<forall>s \<in> set ss. s AND 3 = 0 \<Longrightarrow> d AND 3 \<noteq> 0 \<Longrightarrow>
   RandLevel (ss @ d # rest) = Some (word_of_nat (length ss) + 1, rest)"
  by (simp add: RandLevel_def RandLevel_loop_counts add.commute)

text \<open>
  Claim C9 at the input that breaks it.  When the counter values 0, 4, 8, \<dots>, 124 reach
  one call of \<open>RandLevel\<close> (other threads drawing the values in between) followed by 125,
  all 32 trials succeed and the result is 33: nothing in the loop stops at 32.
\<close>

theorem RandLevel_exceeds_32:
  "RandLevel (map (\<lambda>i. 4 * word_of_nat i) [0..<32] @ [125]) = Some (33, [])"
  by code_simp

subsection \<open>Overwriting a stored key\<close>










text \<open>The list of the example is what two insertions on level 1 build.\<close>

lemma sl_a_built:
  "(case sl_Put 5 ''a'' ''1'' [1, 2] skiplist_new of
      Inl f \<Rightarrow> False
    | Inr (s1, rest1) \<Rightarrow>
        (case sl_Put 5 ''b'' ''22'' rest1 s1 of
           Inl f \<Rightarrow> False
         | Inr (s2, rest2) \<Rightarrow>
             rest2 = [] \<and> map (nodes s2) [0, 1, 2, 3] = map (nodes sl_a) [0, 1, 2, 3]
             \<and> head s2 = head sl_a \<and> sl_size s2 = sl_size sl_a
             \<and> sl_binary_size s2 = sl_binary_size sl_a \<and> next_ptr s2 = next_ptr sl_a))"
  by code_simp


text \<open>
  With a head of more than 33 levels the way down runs over the 32 slots of the path
  array, whatever the key.
\<close>

lemma descend_path_overrun:
  "descend fuel h p n k = Inr p' \<Longrightarrow> length path \<le> 32 \<Longrightarrow> 33 < length path + n \<Longrightarrow>
   descend_path fuel h p n k path = Inl OutOfRange"
proof (induction n arbitrary: p path)
  case 0
  then show ?case by simp
next
  case (Suc n)
  from Suc.prems(1) obtain q where w: "walk fuel h p n k = Inr q" and d: "descend fuel h q n k = Inr p'"
    by (auto split: sum.splits)
  from Suc.prems(2,3) have n: "n > 0" by simp
  show ?case
  proof (cases "length path < 32")
    case True
    then have "length (path @ [(q, n)]) \<le> 32" "33 < length (path @ [(q, n)]) + n"
      using Suc.prems(3) by simp_all
    from Suc.IH[OF d this] show ?thesis using w n True by simp
  next
    case False
    then show ?thesis using w n by simp
  qed
qed

lemma sl_Put_tall_head:
  assumes g: "sl_Get fuel k sl = Inr r"
    and hn: "nodes sl (head sl) = Some hn"
    and lv: "33 < length (nexts hn)"
  shows "sl_Put fuel k v draws sl = Inl OutOfRange"
proof -
  from g hn obtain p where d: "descend fuel (nodes sl) (head sl) (length (nexts hn)) k = Inr p"
    by (auto simp: sl_Get_def split: sum.splits)
  from descend_path_overrun[OF d, of "[]"] lv
  have "descend_path fuel (nodes sl) (head sl) (length (nexts hn)) k [] = Inl OutOfRange" by simp
  then show ?thesis using hn by (simp add: sl_Put_def)
qed

section \<open>Properties of the Bloom filter\<close>

subsection \<open>Reading back what was written\<close>

lemma low_byte_split: "ucast (ucast x :: 8 word) OR push_bit 8 (drop_bit 8 x) = (x :: 64 word)"
proof (rule bit_word_eqI)
  fix n assume "n < LENGTH(64)"
  then show "bit (ucast (ucast x :: 8 word) OR push_bit 8 (drop_bit 8 x)) n = bit x n"
    by (cases "n < 8") (auto simp add: bit_simps)
qed

lemma bytes_u64_from:
  "i \<le> 8 \<Longrightarrow> bytes_u64 (map (\<lambda>k. ucast (drop_bit (8 * k) w)) [i..<8]) = drop_bit (8 * i) w"
proof (induction "8 - i" arbitrary: i)
  case 0
  then have "i = 8" by simp
  then show ?case by (simp add: bytes_u64_def drop_bit_word_beyond)
next
  case (Suc d)
  then have lt: "i < 8" and d: "d = 8 - Suc i" and le: "Suc i \<le> 8" by auto
  have ih: "bytes_u64 (map (\<lambda>k. ucast (drop_bit (8 * k) w)) [Suc i..<8]) = drop_bit (8 * Suc i) w"
    using Suc.hyps(1)[OF d le] .
  have "bytes_u64 (map (\<lambda>k. ucast (drop_bit (8 * k) w)) [i..<8])
        = ucast (ucast (drop_bit (8 * i) w) :: 8 word) OR push_bit 8 (drop_bit (8 * Suc i) w)"
    using lt ih by (simp add: upt_conv_Cons bytes_u64_def)
  also have "drop_bit (8 * Suc i) w = drop_bit 8 (drop_bit (8 * i) w)"
    by (simp add: drop_bit_drop_bit add.commute)
  finally show ?case by (simp only: low_byte_split)
qed

lemma bytes_u64_u64_bytes: "bytes_u64 (u64_bytes w) = w"
  using bytes_u64_from[of 0 w] by (simp add: u64_bytes_def)

lemma length_u64_bytes: "length (u64_bytes w) = 8" by (simp add: u64_bytes_def)

lemma read_write_same: "read_bytes (write_bytes m i bs) i (length bs) = bs"
  by (rule nth_equalityI) (simp_all add: read_bytes_def write_bytes_def)

lemma read_write_other:
  "j + n \<le> i \<or> i + length bs \<le> j \<Longrightarrow> read_bytes (write_bytes m i bs) j n = read_bytes m j n"
  by (auto simp: read_bytes_def write_bytes_def)

lemma load_store_same: "load_u64 (store_u64 m i w) i = w"
  using read_write_same[of m i "u64_bytes w"]
  by (simp add: load_u64_def store_u64_def length_u64_bytes bytes_u64_u64_bytes)

lemma load_store_other:
  "j + 8 \<le> i \<or> i + 8 \<le> j \<Longrightarrow> load_u64 (store_u64 m i w) j = load_u64 m j"
  by (simp add: load_u64_def store_u64_def read_write_other length_u64_bytes)

lemma load_store_u64s_other:
  "j + 8 \<le> i \<or> i + 8 * length ws \<le> j \<Longrightarrow> load_u64 (store_u64s m i ws) j = load_u64 m j"
  by (induction ws arbitrary: m i) (auto simp: load_store_other)

lemma load_store_u64s_nth:
  "k < length ws \<Longrightarrow> load_u64 (store_u64s m i ws) (i + 8 * k) = ws ! k"
proof (induction ws arbitrary: m i k)
  case Nil
  then show ?case by simp
next
  case (Cons w ws)
  show ?case
  proof (cases k)
    case 0
    then show ?thesis by (simp add: load_store_u64s_other load_store_same)
  next
    case (Suc k')
    with Cons.prems have "k' < length ws" by simp
    from Cons.IH[OF this, of "store_u64 m i w" "i + 8"] Suc show ?thesis
      by (simp add: add.assoc add.commute add.left_commute)
  qed
qed

lemma load_u64s_store_u64s: "load_u64s (store_u64s m i ws) i (length ws) = ws"
  by (rule nth_equalityI) (simp_all add: load_u64s_def load_store_u64s_nth)

lemma load_u64s_other:
  "j + 8 * n \<le> i \<or> i + 8 * length ws \<le> j \<Longrightarrow>
   load_u64s (store_u64s m i ws) j n = load_u64s m j n"
  by (auto simp: load_u64s_def intro!: load_store_u64s_other)

lemma load_u64s_store_other:
  "j + 8 * n \<le> i \<or> i + 8 \<le> j \<Longrightarrow> load_u64s (store_u64 m i w) j n = load_u64s m j n"
  by (auto simp: load_u64s_def intro!: load_store_other)

lemma store_u64s_outside:
  "j < i \<or> i + 8 * length ws \<le> j \<Longrightarrow> store_u64s m i ws j = m j"
  by (induction ws arbitrary: m i) (auto simp: store_u64_def write_bytes_def length_u64_bytes)

subsection \<open>Save and Load\<close>

text \<open>A filter is initialized once \<open>Init\<close> has run; inserting keys keeps it so.\<close>

lemma Init_initialized:
  "unat hash_num \<le> length draws \<Longrightarrow> bf_initialized (Init len hash_num draws)"
  by (simp add: bf_initialized_def Init_def)

lemma Insert_loop_length: "Insert_loop seeds s len dat = Inr dat' \<Longrightarrow> length dat' = length dat"
  by (induction seeds arbitrary: dat) (auto simp: Let_def split: if_splits)

lemma Insert_initialized:
  "bf_initialized bf \<Longrightarrow> Insert s bf = Inr bf' \<Longrightarrow> bf_initialized bf'"
  by (auto simp: bf_initialized_def Insert_def split: sum.splits dest: Insert_loop_length)

text \<open>
  The eight bytes between the seeds and the bit array are skipped by \<open>Save\<close>: they keep
  what the destination held before.
\<close>

lemma Save_keeps_padding:
  assumes "Save bf s = Inr (s', n)"
    and "16 + 8 * unat (bf_hash_num bf) \<le> j" "j < 24 + 8 * unat (bf_hash_num bf)"
  shows "s' j = s j"
  using assms
  by (auto simp: Save_def Let_def store_u64s_outside store_u64_def write_bytes_def
                 length_u64_bytes split: if_splits)

lemma Save_Load:
  assumes i: "bf_initialized bf"
  shows "\<exists>s' n. Save bf s = Inr (s', n) \<and> Load s' = (bf\<lparr>bf_loaded := True\<rparr>, n)"
proof -
  let ?k = "unat (bf_hash_num bf)" and ?z = "unat (bf_size bf)"
  let ?ix = "16 + 8 * ?k + (8 - (16 + 8 * ?k) mod 8)"
  let ?s1 = "store_u64 s 0 (bf_hash_num bf)"
  let ?s2 = "store_u64 ?s1 8 (bf_length bf)"
  let ?s3 = "store_u64s ?s2 16 (bf_seed bf)"
  let ?s4 = "store_u64s ?s3 ?ix (bf_data bf)"
  from i have ls: "length (bf_seed bf) = ?k" and ld: "length (bf_data bf) = ?z"
    and sz: "bf_size bf = bf_length bf div 64 + 1"
    by (simp_all add: bf_initialized_def)
  have ix: "?ix = 24 + 8 * ?k" by simp
  have save: "Save bf s = Inr (?s4, ?ix + ?z * 8)"
    using ls ld by (simp add: Save_def Let_def)
  have h: "load_u64 ?s4 0 = bf_hash_num bf"
    by (simp add: load_store_u64s_other ls ld load_store_other load_store_same)
  have l: "load_u64 ?s4 8 = bf_length bf"
    by (simp add: load_store_u64s_other ls ld load_store_other load_store_same)
  have sd: "load_u64s ?s4 16 ?k = bf_seed bf"
  proof -
    have "load_u64s ?s4 16 ?k = load_u64s ?s3 16 ?k"
      by (rule load_u64s_other) (simp add: ix)
    also have "\<dots> = bf_seed bf" using load_u64s_store_u64s[of ?s2 16 "bf_seed bf"] ls by simp
    finally show ?thesis .
  qed
  have dt: "load_u64s ?s4 ?ix ?z = bf_data bf"
    using load_u64s_store_u64s[of ?s3 ?ix "bf_data bf"] ld by simp
  have "Load ?s4 = (bf\<lparr>bf_loaded := True\<rparr>, ?ix + ?z * 8)"
    unfolding Load_def Let_def h l sd using dt sz by simp
  with save show ?thesis by blast
qed

text \<open>
  Inside the range they cover, consecutive stores leave nothing of the buffer they were
  made into.
\<close>

lemma store_u64s_inside:
  "i \<le> j \<Longrightarrow> j < i + 8 * length ws \<Longrightarrow> store_u64s m i ws j = store_u64s m' i ws j"
proof (induction ws arbitrary: m m' i)
  case Nil
  then show ?case by simp
next
  case (Cons w ws)
  show ?case
  proof (cases "j < i + 8")
    case True
    then have "store_u64s (store_u64 m i w) (i + 8) ws j = store_u64 m i w j"
      and "store_u64s (store_u64 m' i w) (i + 8) ws j = store_u64 m' i w j"
      by (simp_all add: store_u64s_outside)
    then show ?thesis using True Cons.prems(1)
      by (simp add: store_u64_def write_bytes_def length_u64_bytes)
  next
    case False
    then have "i + 8 \<le> j" "j < (i + 8) + 8 * length ws" using Cons.prems by simp_all
    from Cons.IH[OF this] show ?thesis by simp
  qed
qed

text \<open>
  What \<open>Save\<close> writes: the bytes it reports, except the eight behind the seeds, are
  determined by the filter; those eight and everything behind the reported length are
  the destination's.
\<close>

lemma Save_bytes:
  assumes i: "bf_initialized bf"
  shows "\<exists>s'. Save bf s = Inr (s', 24 + 8 * unat (bf_hash_num bf) + unat (bf_size bf) * 8)
          \<and> (\<forall>j. 16 + 8 * unat (bf_hash_num bf) \<le> j \<and> j < 24 + 8 * unat (bf_hash_num bf)
                  \<longrightarrow> s' j = s j)
          \<and> (\<forall>t t'. Save bf t = Inr (t', 24 + 8 * unat (bf_hash_num bf) + unat (bf_size bf) * 8)
                \<longrightarrow> (\<forall>j < 24 + 8 * unat (bf_hash_num bf) + unat (bf_size bf) * 8.
                        j < 16 + 8 * unat (bf_hash_num bf) \<or> 24 + 8 * unat (bf_hash_num bf) \<le> j
                        \<longrightarrow> t' j = s' j))"
proof -
  let ?k = "unat (bf_hash_num bf)" and ?z = "unat (bf_size bf)"
  let ?ix = "24 + 8 * ?k"
  let ?hd = "\<lambda>m. store_u64 (store_u64 m 0 (bf_hash_num bf)) 8 (bf_length bf)"
  let ?sd = "\<lambda>m. store_u64s (?hd m) 16 (bf_seed bf)"
  let ?out = "\<lambda>m. store_u64s (?sd m) ?ix (bf_data bf)"
  from i have ls: "length (bf_seed bf) = ?k" and ld: "length (bf_data bf) = ?z"
    by (simp_all add: bf_initialized_def)
  have save: "Save bf m = Inr (?out m, ?ix + ?z * 8)" for m
    using ls ld by (simp add: Save_def Let_def)
  have o1: "?out m j = ?sd m j" if "j < ?ix" for m j
    using that ld by (simp add: store_u64s_outside)
  have o2: "?sd m j = ?hd m j" if "j < 16 \<or> 16 + 8 * ?k \<le> j" for m j
    using that ls by (simp add: store_u64s_outside)
  have o3: "?hd m j = m j" if "16 \<le> j" for m j
    using that by (simp add: store_u64_def write_bytes_def length_u64_bytes)
  have o4: "?hd m j = ?hd m' j" if "j < 16" for m m' j
    using that by (simp add: store_u64_def write_bytes_def length_u64_bytes)
  have pad: "?out m j = m j" if lo: "16 + 8 * ?k \<le> j" and hi: "j < ?ix" for m j
  proof -
    have "?out m j = ?sd m j" using hi by (rule o1)
    also have "\<dots> = ?hd m j" using lo by (intro o2) simp
    also have "\<dots> = m j" using lo by (intro o3) simp
    finally show ?thesis .
  qed
  have same: "?out t j = ?out s j"
    if lt: "j < ?ix + ?z * 8" and rg: "j < 16 + 8 * ?k \<or> ?ix \<le> j" for t j
  proof -
    consider "j < 16" | "16 \<le> j" "j < 16 + 8 * ?k" | "?ix \<le> j"
      using rg by linarith
    then show ?thesis
    proof cases
      case 1
      then have a: "j < ?ix" and b: "j < 16 \<or> 16 + 8 * ?k \<le> j" by simp_all
      have "?out t j = ?hd t j" using o1[OF a, of t] o2[OF b, of t] by simp
      moreover have "?out s j = ?hd s j" using o1[OF a, of s] o2[OF b, of s] by simp
      moreover have "?hd t j = ?hd s j" using 1 by (rule o4)
      ultimately show ?thesis by simp
    next
      case 2
      then have a: "j < ?ix" by simp
      have c: "j < 16 + 8 * length (bf_seed bf)" using 2(2) ls by simp
      have "?sd t j = ?sd s j" using 2(1) c by (rule store_u64s_inside)
      then show ?thesis using o1[OF a, of t] o1[OF a, of s] by simp
    next
      case 3
      have c: "j < ?ix + 8 * length (bf_data bf)" using lt ld by simp
      show ?thesis using 3 c by (rule store_u64s_inside)
    qed
  qed
  have A: "Save bf s = Inr (?out s, ?ix + ?z * 8)" by (rule save)
  have B: "\<forall>j. 16 + 8 * ?k \<le> j \<and> j < ?ix \<longrightarrow> ?out s j = s j"
    using pad by blast
  have C: "\<forall>t t'. Save bf t = Inr (t', ?ix + ?z * 8)
                \<longrightarrow> (\<forall>j < ?ix + ?z * 8. j < 16 + 8 * ?k \<or> ?ix \<le> j \<longrightarrow> t' j = ?out s j)"
  proof (intro allI impI)
    fix t t' j
    assume t: "Save bf t = Inr (t', ?ix + ?z * 8)" and lt: "j < ?ix + ?z * 8"
      and rg: "j < 16 + 8 * ?k \<or> ?ix \<le> j"
    from t have "t' = ?out t" unfolding save by simp
    then show "t' j = ?out s j" using same[OF lt rg, of t] by simp
  qed
  from A B C show ?thesis by blast
qed

text \<open>
  Claim C8, as the code has it.  For an initialized filter \<open>Save\<close> succeeds, and \<open>Load\<close>
  on the buffer it produced reports the same number of bytes and restores the hash count,
  the bit-array length, the seeds, the bit array and its word count; \<open>Check\<close> gives the
  same verdict on the loaded filter as on the original for every key.  Saving the loaded
  filter into any destination reports the same number of bytes again and writes the same
  byte as the first \<open>Save\<close> at every position below that number, except at the eight
  positions behind the seeds: those \<open>Save\<close> skips, so that each of the two outputs has
  there what its own destination held before.
\<close>

theorem BloomFilter_Save_Load_roundtrip:
  assumes i: "bf_initialized bf"
  shows "\<exists>s' n. Save bf s = Inr (s', n)
           \<and> n = 24 + 8 * unat (bf_hash_num bf) + unat (bf_size bf) * 8
           \<and> snd (Load s') = n
           \<and> bf_hash_num (fst (Load s')) = bf_hash_num bf
           \<and> bf_length (fst (Load s')) = bf_length bf
           \<and> bf_seed (fst (Load s')) = bf_seed bf
           \<and> bf_data (fst (Load s')) = bf_data bf
           \<and> bf_size (fst (Load s')) = bf_size bf
           \<and> (\<forall>t. Save (fst (Load s')) t = Save bf t)
           \<and> (\<forall>t. \<exists>t'. Save (fst (Load s')) t = Inr (t', n)
                  \<and> (\<forall>j < n. j < 16 + 8 * unat (bf_hash_num bf)
                              \<or> 24 + 8 * unat (bf_hash_num bf) \<le> j \<longrightarrow> t' j = s' j)
                  \<and> (\<forall>j. 16 + 8 * unat (bf_hash_num bf) \<le> j
                          \<and> j < 24 + 8 * unat (bf_hash_num bf) \<longrightarrow> t' j = t j \<and> s' j = s j))
           \<and> (\<forall>key. Check key (fst (Load s')) = Check key bf)"
proof -
  let ?n = "24 + 8 * unat (bf_hash_num bf) + unat (bf_size bf) * 8"
  let ?lo = "16 + 8 * unat (bf_hash_num bf)" and ?hi = "24 + 8 * unat (bf_hash_num bf)"
  from Save_Load[OF i, of s] obtain s' n where
    a: "Save bf s = Inr (s', n)" and b: "Load s' = (bf\<lparr>bf_loaded := True\<rparr>, n)" by blast
  from Save_bytes[OF i, of s] a have n: "n = ?n"
    and ps: "\<forall>j. ?lo \<le> j \<and> j < ?hi \<longrightarrow> s' j = s j"
    and sm: "\<forall>t t'. Save bf t = Inr (t', ?n) \<longrightarrow>
               (\<forall>j < ?n. j < ?lo \<or> ?hi \<le> j \<longrightarrow> t' j = s' j)"
    by auto
  have again: "\<forall>t. Save (bf\<lparr>bf_loaded := True\<rparr>) t = Save bf t" by (simp add: Save_def Let_def)
  have chk: "\<forall>key. Check key (bf\<lparr>bf_loaded := True\<rparr>) = Check key bf" by (simp add: Check_def)
  have second: "\<exists>t'. Save bf t = Inr (t', ?n)
                  \<and> (\<forall>j < ?n. j < ?lo \<or> ?hi \<le> j \<longrightarrow> t' j = s' j)
                  \<and> (\<forall>j. ?lo \<le> j \<and> j < ?hi \<longrightarrow> t' j = t j \<and> s' j = s j)" for t
  proof -
    from Save_bytes[OF i, of t] obtain t' where
      t: "Save bf t = Inr (t', ?n)" and pt: "\<forall>j. ?lo \<le> j \<and> j < ?hi \<longrightarrow> t' j = t j"
      by blast
    from sm t have "\<forall>j < ?n. j < ?lo \<or> ?hi \<le> j \<longrightarrow> t' j = s' j" by blast
    with t pt ps show ?thesis by blast
  qed
  show ?thesis
    apply (rule exI[of _ s'], rule exI[of _ n])
    using a b n again chk second by simp
qed

lemma bf0_built: "Insert ''k'' (Init 100 2 [3, 5]) = Inr bf0"
  by code_simp

theorem BloomFilter_Save_Load_roundtrip_witness:
  "bf_initialized bf0
   \<and> (\<exists>s' n. Save bf0 (\<lambda>_. 0) = Inr (s', n) \<and> n = 56
          \<and> bf_hash_num (fst (Load s')) = 2 \<and> bf_length (fst (Load s')) = 100
          \<and> bf_seed (fst (Load s')) = [3, 5] \<and> bf_data (fst (Load s')) = [128, 0]
          \<and> (\<exists>t'. Save (fst (Load s')) (\<lambda>_. 170) = Inr (t', n)
                 \<and> t' 0 = s' 0 \<and> t' 31 = s' 31 \<and> t' 40 = s' 40 \<and> t' 55 = s' 55
                 \<and> t' 32 = 170 \<and> s' 32 = 0)
          \<and> Check ''k'' (fst (Load s')) = Check ''k'' bf0)"
proof -
  have i: "bf_initialized bf0" by (simp add: bf_initialized_def bf0_def)
  have f: "bf_hash_num bf0 = 2" "bf_length bf0 = 100" "bf_seed bf0 = [3, 5]" "bf_data bf0 = [128, 0]"
    "bf_size bf0 = 2"
    by (simp_all add: bf0_def)
  from BloomFilter_Save_Load_roundtrip[OF i, of "\<lambda>_. 0"] obtain s' n where
    r: "Save bf0 (\<lambda>_. 0) = Inr (s', n)"
       "n = 24 + 8 * unat (bf_hash_num bf0) + unat (bf_size bf0) * 8"
       "bf_hash_num (fst (Load s')) = bf_hash_num bf0"
       "bf_length (fst (Load s')) = bf_length bf0"
       "bf_seed (fst (Load s')) = bf_seed bf0"
       "bf_data (fst (Load s')) = bf_data bf0"
       "\<forall>t. \<exists>t'. Save (fst (Load s')) t = Inr (t', n)
                  \<and> (\<forall>j < n. j < 16 + 8 * unat (bf_hash_num bf0)
                              \<or> 24 + 8 * unat (bf_hash_num bf0) \<le> j \<longrightarrow> t' j = s' j)
                  \<and> (\<forall>j. 16 + 8 * unat (bf_hash_num bf0) \<le> j
                          \<and> j < 24 + 8 * unat (bf_hash_num bf0) \<longrightarrow> t' j = t j \<and> s' j = (0 :: byte))"
       "\<forall>key. Check key (fst (Load s')) = Check key bf0"
    by blast
  have n: "n = 56" using r(2) f by simp
  from r(7) obtain t' where
    t: "Save (fst (Load s')) (\<lambda>_. 170) = Inr (t', n)"
       "\<forall>j < n. j < 16 + 8 * unat (bf_hash_num bf0)
                              \<or> 24 + 8 * unat (bf_hash_num bf0) \<le> j \<longrightarrow> t' j = s' j"
       "\<forall>j. 16 + 8 * unat (bf_hash_num bf0) \<le> j
                          \<and> j < 24 + 8 * unat (bf_hash_num bf0) \<longrightarrow> t' j = 170 \<and> s' j = 0"
    by blast
  have "t' 0 = s' 0" "t' 31 = s' 31" "t' 40 = s' 40" "t' 55 = s' 55"
    using t(2) n f by simp_all
  moreover have "t' 32 = 170" "s' 32 = 0" using t(3) f by simp_all
  ultimately show ?thesis
    using i r(1,3,4,5,6,8) n t(1) f by auto
qed

text \<open>
  The two outputs are not byte-identical in general.  The filter with two seeds is saved
  into a buffer of zeros, loaded from there and saved into a buffer that holds 170
  everywhere: both calls report 56 bytes, and byte 32, the first one behind the seeds, is
  0 in the first output and 170 in the second.
\<close>

theorem BloomFilter_second_Save_counterexample:
  "bf_initialized bf0
   \<and> (case Save bf0 (\<lambda>_. 0) of
         Inl f \<Rightarrow> False
       | Inr (s', n) \<Rightarrow>
           (case Save (fst (Load s')) (\<lambda>_. 170) of
              Inl f \<Rightarrow> False
            | Inr (t', n') \<Rightarrow> n = 56 \<and> n' = 56 \<and> s' 32 = 0 \<and> t' 32 = 170))"
proof -
  have i: "bf_initialized bf0" by (simp add: bf_initialized_def bf0_def)
  have "case Save bf0 (\<lambda>_. 0) of
         Inl f \<Rightarrow> False
       | Inr (s', n) \<Rightarrow>
           (case Save (fst (Load s')) (\<lambda>_. 170) of
              Inl f \<Rightarrow> False
            | Inr (t', n') \<Rightarrow> n = 56 \<and> n' = 56 \<and> s' 32 = 0 \<and> t' 32 = 170)"
    by code_simp
  with i show ?thesis by simp
qed
section \<open>Properties of the block cache\<close>

subsection \<open>Eviction\<close>










subsection \<open>Insertion\<close>




text \<open>
  The invariant: the empty cache has it, and \<open>Put\<close>, \<open>Get\<close>, \<open>Remove\<close> and \<open>Clear\<close>
  keep it.
\<close>

lemma new_wf: "cache_wf (BlockCache_new cfg)"
  by (simp add: cache_wf_def BlockCache_new_def)


lemma bc_Get_wf:
  assumes wf: "cache_wf c" and r: "bc_Get sid off c = Inr (res, c')"
  shows "cache_wf c'"
proof (cases "cache_map c (MakeKey sid off)")
  case None
  with r wf show ?thesis by (auto simp: bc_Get_def cache_wf_def)
next
  case (Some p)
  from wf Some have p: "cache_blocks c p \<noteq> None" "p < next_block c"
    unfolding cache_wf_def by blast+
  then obtain b where b: "cache_blocks c p = Some b" by auto
  from r Some b have "c' = c\<lparr>cache_blocks := (cache_blocks c)(p \<mapsto>
                              b\<lparr>cb_hit_count := cb_hit_count b + 1,
                                cb_access_time := access_counter c + 1\<rparr>),
                          access_counter := access_counter c + 1,
                          lru_list := p # removeAll p (lru_list c),
                          stats := (stats c)\<lparr>hit_count := hit_count (stats c) + 1,
                                             total_access := total_access (stats c) + 1\<rparr>\<rparr>"
    by (auto simp: bc_Get_def Let_def MoveToFront_def)
  then show ?thesis using wf p by (auto simp: cache_wf_def distinct_removeAll)
qed

lemma bc_Remove_wf:
  assumes wf: "cache_wf c" and r: "bc_Remove sid off c = Inr (ok, c')"
  shows "cache_wf c'"
  using assms
  by (auto simp: bc_Remove_def RemoveBlock_def Let_def cache_wf_def distinct_removeAll
           split: option.splits if_splits)

lemma bc_Clear_wf: "cache_wf (bc_Clear c)"
  by (simp add: bc_Clear_def cache_wf_def)



lemma cache_ab_built:
  "(case bc_Put 1 0 block4 (BlockCache_new cfg_two) of
      Inl f \<Rightarrow> False
    | Inr (ok1, c1) \<Rightarrow>
        (case bc_Put 1 1 block6 c1 of
           Inl f \<Rightarrow> False
         | Inr (ok2, c2) \<Rightarrow>
             ok1 \<and> ok2 \<and> lru_list c2 = lru_list cache_ab \<and> stats c2 = stats cache_ab
             \<and> next_block c2 = next_block cache_ab \<and> access_counter c2 = access_counter cache_ab
             \<and> map (cache_blocks c2) [0, 1] = map (cache_blocks cache_ab) [0, 1]
             \<and> map (cache_map c2) [MakeKey 1 0, MakeKey 1 1, MakeKey 2 0]
                 = map (cache_map cache_ab) [MakeKey 1 0, MakeKey 1 1, MakeKey 2 0]))"
  by code_simp


section \<open>Properties of the compaction\<close>

subsection \<open>The top of the heap\<close>

text \<open>
  \<open>operator<\<close> orders the iterators by key and, for equal keys, by secondary key, both
  reversed; the top of the heap is therefore an iterator on the least key and, among
  those, the one with the least secondary key.
\<close>

lemma less_src_trans: "less_src a b \<Longrightarrow> less_src b c \<Longrightarrow> less_src a c"
  by (auto simp: less_src_def split: if_splits)

lemma less_src_negtrans: "\<not> less_src a b \<Longrightarrow> \<not> less_src b c \<Longrightarrow> \<not> less_src a c"
  by (auto simp: less_src_def split: if_splits)

lemma pq_top_from_mem: "pq_top_from b ys \<in> set (b # ys)"
  by (induction ys arbitrary: b) auto

lemma pq_top_from_max: "y \<in> set (b # ys) \<Longrightarrow> \<not> less_src (pq_top_from b ys) y"
proof (induction ys arbitrary: b y)
  case Nil
  then show ?case by (simp add: less_src_def)
next
  case (Cons x xs)
  let ?b' = "if less_src b x then x else b"
  let ?t = "pq_top_from ?b' xs"
  have t: "pq_top_from b (x # xs) = ?t" by simp
  have ih: "\<And>z. z \<in> set (?b' # xs) \<Longrightarrow> \<not> less_src ?t z" by (rule Cons.IH)
  have tb': "\<not> less_src ?t ?b'" by (rule ih) simp
  from Cons.prems consider "y = b" | "y = x" | "y \<in> set xs" by auto
  then show ?case
  proof cases
    case 1
    show ?thesis
    proof (cases "less_src b x")
      case True
      then have "\<not> less_src ?t x" using tb' by simp
      with True have "\<not> less_src ?t b" using less_src_trans by blast
      then show ?thesis unfolding t 1 .
    next
      case False
      then show ?thesis unfolding t 1 using tb' by simp
    qed
  next
    case 2
    show ?thesis
    proof (cases "less_src b x")
      case True
      then show ?thesis unfolding t 2 using tb' by simp
    next
      case False
      then have "\<not> less_src ?t b" using tb' by simp
      with False have "\<not> less_src ?t x" using less_src_negtrans by blast
      then show ?thesis unfolding t 2 .
    qed
  next
    case 3
    then show ?thesis unfolding t by (intro ih) simp
  qed
qed

lemma pq_top_least:
  assumes "y \<in> set (b # ys)"
  shows "fst (src_cur (pq_top_from b ys)) \<le> fst (src_cur y)"
    and "fst (src_cur (pq_top_from b ys)) = fst (src_cur y) \<Longrightarrow>
         second_value (pq_top_from b ys) \<le> second_value y"
  using pq_top_from_max[OF assms] by (auto simp: less_src_def split: if_splits)

subsection \<open>One round of the merge loop\<close>

lemma merge_loop_step:
  "merge_loop Unnoticed (x # xs) out =
   merge_loop Unnoticed (remove1 (pq_top_from x xs) (x # xs) @ advance (pq_top_from x xs))
              (keep out (src_cur (pq_top_from x xs)))"
  by (cases "src_rest (pq_top_from x xs)")
     (simp_all add: Iterator_inc_def advance_def keep_def Let_def)

lemma holders_append: "holders (q @ r) k = holders q k \<union> holders r k"
  by (auto simp: holders_def)

lemma set_remove1_insert: "t \<in> set q \<Longrightarrow> set q = insert t (set (remove1 t q))"
proof -
  assume t: "t \<in> set q"
  have "x \<in> set q \<longleftrightarrow> x = t \<or> x \<in> set (remove1 t q)" for x
  proof (cases "x = t")
    case True
    then show ?thesis using t by simp
  next
    case False
    then show ?thesis by (simp add: in_set_remove1)
  qed
  then show ?thesis by auto
qed

lemma holders_remove1:
  "t \<in> set q \<Longrightarrow> holders q k = holders (remove1 t q) k \<union> holders [t] k"
proof -
  assume "t \<in> set q"
  from set_remove1_insert[OF this] have "set q = insert t (set (remove1 t q))" .
  then show ?thesis unfolding holders_def by auto
qed

lemma holders_advance:
  assumes "k \<noteq> fst (src_cur t)"
  shows "holders (advance t) k = holders [t] k"
proof -
  obtain k0 v0 where c: "src_cur t = (k0, v0)" by (cases "src_cur t")
  with assms have ne: "k \<noteq> k0" by simp
  show ?thesis
    using c ne by (cases "src_rest t") (auto simp: holders_def advance_def src_entries_def)
qed

lemma holders_step:
  "t \<in> set q \<Longrightarrow> k \<noteq> fst (src_cur t) \<Longrightarrow> holders (remove1 t q @ advance t) k = holders q k"
  by (simp add: holders_append holders_advance holders_remove1[of t q])

lemma distinct_map_remove1:
  assumes d: "distinct (map f q)" and t: "t \<in> set q"
  shows "distinct (map f (remove1 t q))" and "f t \<notin> f ` set (remove1 t q)"
proof -
  from d have dq: "distinct q" by (simp add: distinct_map)
  have inj: "inj_on f (set q)" using d by (simp add: distinct_map)
  have sub: "set (remove1 t q) \<subseteq> set q" by (rule set_remove1_subset)
  show "distinct (map f (remove1 t q))"
    using dq inj sub by (simp add: distinct_map inj_on_subset)
  show "f t \<notin> f ` set (remove1 t q)"
  proof
    assume "f t \<in> f ` set (remove1 t q)"
    then obtain y where y: "y \<in> set (remove1 t q)" "f y = f t" by auto
    with sub have "y \<in> set q" by auto
    with inj t y(2) have "y = t" by (auto dest: inj_onD)
    with y(1) dq show False by simp
  qed
qed

lemma sorted_keys_head:
  fixes e :: entry
  shows "sorted_wrt (<) (map fst (e # es)) \<Longrightarrow> k \<in> fst ` set (e # es) \<Longrightarrow> fst e \<le> k"
  by auto

lemma sorted_keys_unique:
  fixes es :: "entry list"
  assumes s: "sorted_wrt (<) (map fst es)" and a: "(k, v) \<in> set es" and b: "(k, v') \<in> set es"
  shows "v = v'"
proof -
  from s have "distinct (map fst es)" by (simp add: strict_sorted_iff)
  then show ?thesis using a b by (meson eq_key_imp_eq_value)
qed

lemma sorted_keys_last:
  fixes out :: "entry list"
  assumes s: "sorted_wrt (<) (map fst out)" and k: "k' \<in> fst ` set out"
  shows "k' \<le> fst (last out)"
proof -
  from k have ne: "out \<noteq> []" by auto
  then have split: "out = butlast out @ [last out]" by simp
  from s have "sorted_wrt (<) (map fst (butlast out @ [last out]))" using split by simp
  then have b: "\<forall>x \<in> set (butlast out). fst x < fst (last out)"
    by (simp add: sorted_wrt_append)
  from k obtain x where x: "x \<in> set out" "k' = fst x" by auto
  from x(1) split have "x \<in> set (butlast out) \<or> x = last out"
    by (metis Un_iff empty_iff empty_set insert_iff list.simps(15) set_append)
  with b x(2) show ?thesis by auto
qed

lemma keys_advance:
  "y \<in> set (advance t) \<Longrightarrow> src_entries y = src_rest t \<and> second_value y = second_value t"
  by (cases "src_rest t") (auto simp: advance_def src_entries_def)

lemma heap_inv_step_gen:
  assumes inv: "heap_inv q out"
    and tq: "t \<in> set q"
    and least: "\<And>y. y \<in> set q \<Longrightarrow> fst (src_cur t) \<le> fst (src_cur y)"
  shows "heap_inv (remove1 t q @ advance t) (keep out (src_cur t))"
proof -
  let ?q = "q" and ?t = "t"
  let ?q1 = "remove1 ?t ?q" and ?k0 = "fst (src_cur ?t)"
  have sub: "set ?q1 \<subseteq> set ?q" by (rule set_remove1_subset)
  from inv have so: "\<And>y. y \<in> set ?q \<Longrightarrow> sorted_wrt (<) (map fst (src_entries y))"
    and di: "distinct (map second_value ?q)"
    and sout: "sorted_wrt (<) (map fst out)"
    and bd: "\<And>y k k'. y \<in> set ?q \<Longrightarrow> k \<in> fst ` set (src_entries y) \<Longrightarrow> k' \<in> fst ` set out \<Longrightarrow> k' \<le> k"
    unfolding heap_inv_def by blast+
  have st: "sorted_wrt (<) (map fst (src_cur ?t # src_rest ?t))"
    using so[OF tq] by (simp add: src_entries_def)
  have k0t: "?k0 \<in> fst ` set (src_entries ?t)" by (simp add: src_entries_def)
  \<comment> \<open>every source left has sorted keys\<close>
  have i: "sorted_wrt (<) (map fst (src_entries y))" if "y \<in> set (?q1 @ advance ?t)" for y
  proof (cases "y \<in> set ?q1")
    case True
    with sub show ?thesis by (auto intro: so)
  next
    case False
    with that have "y \<in> set (advance ?t)" by simp
    from keys_advance[OF this] st show ?thesis by simp
  qed
  \<comment> \<open>the secondary keys stay distinct\<close>
  have ii: "distinct (map second_value (?q1 @ advance ?t))"
  proof -
    note d = distinct_map_remove1[OF di tq]
    have "\<forall>y \<in> set (advance ?t). second_value y = second_value ?t"
      using keys_advance by blast
    moreover have "distinct (map second_value (advance ?t))"
      by (cases "src_rest ?t") (simp_all add: advance_def)
    ultimately show ?thesis using d by (auto simp: image_iff)
  qed
  \<comment> \<open>every key left is at least the key taken\<close>
  have ge: "?k0 \<le> k" if "y \<in> set (?q1 @ advance ?t)" "k \<in> fst ` set (src_entries y)" for y k
  proof (cases "y \<in> set ?q1")
    case True
    with sub have yq: "y \<in> set ?q" by auto
    have "?k0 \<le> fst (src_cur y)" using least[OF yq] .
    also have "fst (src_cur y) \<le> k"
      using sorted_keys_head[of "src_cur y" "src_rest y" k] so[OF yq] that(2)
      by (simp add: src_entries_def)
    finally show ?thesis .
  next
    case False
    with that(1) have "y \<in> set (advance ?t)" by simp
    from keys_advance[OF this] that(2) have "k \<in> fst ` set (src_rest ?t)" by simp
    with st show ?thesis by auto
  qed
  have old: "k' \<le> k"
    if "y \<in> set (?q1 @ advance ?t)" "k \<in> fst ` set (src_entries y)" "k' \<in> fst ` set out" for y k k'
  proof (cases "y \<in> set ?q1")
    case True
    with sub that show ?thesis by (auto intro: bd)
  next
    case False
    with that(1) have "y \<in> set (advance ?t)" by simp
    from keys_advance[OF this] that(2) have "k \<in> fst ` set (src_entries ?t)"
      by (auto simp: src_entries_def)
    from bd[OF tq this that(3)] show ?thesis .
  qed
  \<comment> \<open>the output stays strictly ascending\<close>
  have iii: "sorted_wrt (<) (map fst (keep out (src_cur ?t)))"
  proof (cases "out = [] \<or> fst (last out) \<noteq> ?k0")
    case False
    then show ?thesis using sout by (simp add: keep_def)
  next
    case True
    have "k' < ?k0" if k': "k' \<in> fst ` set out" for k'
    proof -
      from k' have ne: "out \<noteq> []" by auto
      have a: "k' \<le> fst (last out)" using sorted_keys_last[OF sout k'] .
      have "fst (last out) \<in> fst ` set out" using ne by simp
      from bd[OF tq k0t this] have b: "fst (last out) \<le> ?k0" .
      from True ne have "fst (last out) \<noteq> ?k0" by simp
      with a b show ?thesis by simp
    qed
    then show ?thesis using True sout by (auto simp: keep_def sorted_wrt_append)
  qed
  have iv: "k' \<le> k"
    if "y \<in> set (?q1 @ advance ?t)" "k \<in> fst ` set (src_entries y)"
       "k' \<in> fst ` set (keep out (src_cur ?t))" for y k k'
  proof -
    from that(3) have "k' \<in> fst ` set out \<or> k' = ?k0"
      by (auto simp: keep_def split: if_splits)
    then show ?thesis using old[OF that(1,2)] ge[OF that(1,2)] by auto
  qed
  show ?thesis
    unfolding heap_inv_def using i ii iii iv by blast
qed

lemma heap_inv_step:
  assumes inv: "heap_inv (x # xs) out"
  shows "heap_inv (remove1 (pq_top_from x xs) (x # xs) @ advance (pq_top_from x xs))
                  (keep out (src_cur (pq_top_from x xs)))"
  using inv pq_top_from_mem pq_top_least(1) by (rule heap_inv_step_gen)

lemma top_wins_gen:
  assumes inv: "heap_inv q out"
    and tq: "t \<in> set q"
    and least1: "\<And>y. y \<in> set q \<Longrightarrow> fst (src_cur t) \<le> fst (src_cur y)"
    and least2: "\<And>y. y \<in> set q \<Longrightarrow> fst (src_cur t) = fst (src_cur y) \<Longrightarrow>
                   second_value t \<le> second_value y"
  shows "wins q (fst (src_cur t)) v \<longleftrightarrow> v = snd (src_cur t)"
proof -
  let ?q = "q" and ?t = "t"
  let ?k0 = "fst (src_cur ?t)" and ?v0 = "snd (src_cur ?t)"
  from inv have so: "\<And>y. y \<in> set ?q \<Longrightarrow> sorted_wrt (<) (map fst (src_entries y))"
    and di: "distinct (map second_value ?q)"
    unfolding heap_inv_def by blast+
  have h0: "(second_value ?t, ?v0) \<in> holders ?q ?k0"
    unfolding holders_def using tq by (auto simp: src_entries_def intro!: exI[of _ ?t])
  have least: "second_value ?t \<le> second_value y"
    if "y \<in> set ?q" "(?k0, v') \<in> set (src_entries y)" for y v'
  proof -
    have "?k0 \<in> fst ` set (src_entries y)"
      using that(2) by (rule rev_image_eqI) simp
    then have "?k0 \<in> fst ` set (src_cur y # src_rest y)" by (simp only: src_entries_def)
    from sorted_keys_head[OF _ this] so[OF that(1)]
    have "fst (src_cur y) \<le> ?k0" by (simp add: src_entries_def)
    moreover have "?k0 \<le> fst (src_cur y)" using least1[OF that(1)] .
    ultimately have "?k0 = fst (src_cur y)" by simp
    then show ?thesis using least2[OF that(1)] by simp
  qed
  have min0: "\<forall>(s', v') \<in> holders ?q ?k0. second_value ?t \<le> s'"
    unfolding holders_def using least by auto
  show ?thesis
  proof
    assume "wins ?q ?k0 v"
    then obtain s where s: "(s, v) \<in> holders ?q ?k0" "\<forall>(s', v') \<in> holders ?q ?k0. s \<le> s'"
      unfolding wins_def by blast
    from s(1) obtain y where y: "y \<in> set ?q" "s = second_value y" "(?k0, v) \<in> set (src_entries y)"
      unfolding holders_def by auto
    from s(2) h0 have "s \<le> second_value ?t" by auto
    moreover from least[OF y(1,3)] y(2) have "second_value ?t \<le> s" by simp
    ultimately have "second_value y = second_value ?t" using y(2) by simp
    moreover have "inj_on second_value (set ?q)" using di by (simp only: distinct_map)
    ultimately have "y = ?t" using y(1) tq by (auto dest: inj_onD)
    with y(3) have a: "(?k0, v) \<in> set (src_entries ?t)" by simp
    have b: "(?k0, ?v0) \<in> set (src_entries ?t)" by (simp add: src_entries_def)
    from sorted_keys_unique[OF so[OF tq] a b] show "v = ?v0" .
  next
    assume "v = ?v0"
    then show "wins ?q ?k0 v" unfolding wins_def using h0 min0 by blast
  qed
qed


lemma top_wins:
  assumes inv: "heap_inv (x # xs) out"
  shows "wins (x # xs) (fst (src_cur (pq_top_from x xs))) v \<longleftrightarrow> v = snd (src_cur (pq_top_from x xs))"
  using inv pq_top_from_mem pq_top_least by (rule top_wins_gen)

subsection \<open>The merge loop\<close>

text \<open>
  The loop returns the keys in strictly ascending order, and what it returns for a key is
  what it had kept already or else the value that wins the key in the heap.
\<close>

lemma heap_size_step:
  assumes "t \<in> set q"
  shows "heap_size (remove1 t q @ advance t) < heap_size q"
proof -
  have dec: "heap_size (remove1 d r) + Suc (length (src_rest d)) = heap_size r" if "d \<in> set r" for d r
    using that unfolding heap_size_def by (induction r) auto
  have "heap_size (advance t) \<le> length (src_rest t)"
    by (cases "src_rest t") (simp_all add: heap_size_def advance_def)
  moreover have "heap_size (remove1 t q @ advance t) = heap_size (remove1 t q) + heap_size (advance t)"
    by (simp add: heap_size_def)
  ultimately show ?thesis using dec[OF assms] by simp
qed

lemma map_of_keep:
  fixes out :: "entry list"
  shows "k \<in> fst ` set out \<Longrightarrow> map_of (keep out e) k = map_of out k"
    and "k \<notin> fst ` set out \<Longrightarrow> k = fst e \<Longrightarrow> map_of (keep out e) k = Some (snd e)"
    and "k \<notin> fst ` set out \<Longrightarrow> k \<noteq> fst e \<Longrightarrow> k \<notin> fst ` set (keep out e)"
proof -
  show "k \<in> fst ` set out \<Longrightarrow> map_of (keep out e) k = map_of out k"
  proof -
    assume "k \<in> fst ` set out"
    then have "map_of out k \<noteq> None" by (simp add: map_of_eq_None_iff)
    then obtain v' where "map_of out k = Some v'" by auto
    then show ?thesis by (simp add: keep_def map_add_def)
  qed
  show "k \<notin> fst ` set out \<Longrightarrow> k = fst e \<Longrightarrow> map_of (keep out e) k = Some (snd e)"
  proof -
    assume a: "k \<notin> fst ` set out" "k = fst e"
    have "out = [] \<or> fst (last out) \<noteq> fst e"
    proof (cases "out = []")
      case False
      then have "last out \<in> set out" by simp
      then have "fst (last out) \<in> fst ` set out" by (rule imageI)
      with a show ?thesis by metis
    qed simp
    then have "keep out e = out @ [e]" by (simp add: keep_def)
    moreover have "map_of out k = None" using a(1) by (simp add: map_of_eq_None_iff)
    ultimately show ?thesis using a(2) by (cases e) (simp add: map_add_def)
  qed
  show "k \<notin> fst ` set out \<Longrightarrow> k \<noteq> fst e \<Longrightarrow> k \<notin> fst ` set (keep out e)"
    by (auto simp: keep_def)
qed

lemma wins_cong: "holders q' k = holders q k \<Longrightarrow> wins q' k v = wins q k v"
  by (simp add: wins_def)

lemma merge_loop_correct:
  "heap_inv q out \<Longrightarrow>
   \<exists>res. merge_loop Unnoticed q out = Inr res \<and>
     sorted_wrt (<) (map fst res) \<and>
     (\<forall>k v. map_of res k = Some v \<longleftrightarrow>
            (if k \<in> fst ` set out then map_of out k = Some v else wins q k v))"
proof (induction "heap_size q" arbitrary: q out rule: less_induct)
  case less
  show ?case
  proof (cases q)
    case Nil
    have "\<not> wins [] k v" for k v by (simp add: wins_def holders_def)
    moreover have "map_of out k \<noteq> Some v" if "k \<notin> fst ` set out" for k v
    proof -
      from that have "map_of out k = None" by (simp add: map_of_eq_None_iff)
      then show ?thesis by simp
    qed
    ultimately show ?thesis using less.prems Nil by (auto simp: heap_inv_def)
  next
    case (Cons x xs)
    let ?t = "pq_top_from x xs"
    let ?q' = "remove1 ?t (x # xs) @ advance ?t" and ?out' = "keep out (src_cur ?t)"
    let ?k0 = "fst (src_cur ?t)"
    have inv: "heap_inv (x # xs) out" using less.prems Cons by simp
    have tq: "?t \<in> set (x # xs)" by (rule pq_top_from_mem)
    have step: "merge_loop Unnoticed q out = merge_loop Unnoticed ?q' ?out'"
      unfolding Cons by (rule merge_loop_step)
    have sz: "heap_size ?q' < heap_size q" unfolding Cons using tq by (rule heap_size_step)
    have inv': "heap_inv ?q' ?out'" using inv by (rule heap_inv_step)
    from less.hyps[OF sz inv'] obtain res where
      run: "merge_loop Unnoticed ?q' ?out' = Inr res"
      and s: "sorted_wrt (<) (map fst res)"
      and e: "\<And>k v. map_of res k = Some v \<longleftrightarrow>
          (if k \<in> fst ` set ?out' then map_of ?out' k = Some v else wins ?q' k v)"
      by blast
    have "map_of res k = Some v \<longleftrightarrow>
          (if k \<in> fst ` set out then map_of out k = Some v else wins (x # xs) k v)" for k v
    proof -
      consider "k \<in> fst ` set out" | "k \<notin> fst ` set out" "k = ?k0"
        | "k \<notin> fst ` set out" "k \<noteq> ?k0" by blast
      then show ?thesis
      proof cases
        case 1
        then have "k \<in> fst ` set ?out'" by (auto simp: keep_def)
        with e[of k v] 1 show ?thesis by (simp add: map_of_keep(1))
      next
        case 2
        have m: "map_of ?out' k = Some (snd (src_cur ?t))" using 2 by (rule map_of_keep(2))
        then have "k \<in> fst ` set ?out'" by (metis map_of_eq_None_iff option.distinct(1))
        with e[of k v] m 2 show ?thesis using top_wins[OF inv, of v] by auto
      next
        case 3
        then have "k \<notin> fst ` set ?out'" by (rule map_of_keep(3))
        moreover have "wins ?q' k v = wins (x # xs) k v"
          by (rule wins_cong) (rule holders_step[OF tq 3(2)])
        ultimately show ?thesis using e[of k v] 3 by simp
      qed
    qed
    then have m: "\<forall>k v. map_of res k = Some v \<longleftrightarrow>
          (if k \<in> fst ` set out then map_of out k = Some v else wins (x # xs) k v)" by blast
    show ?thesis unfolding step unfolding Cons using run s m by blast
  qed
qed

text \<open>
  Where the read past the end of the vector of blocks is detected, the loop stops there:
  some iterator of a heap that is not empty is the first to leave its last entry.
\<close>

lemma merge_loop_Detected:
  "q \<noteq> [] \<Longrightarrow> merge_loop Detected q out = Inl OutOfRange"
proof (induction "heap_size q" arbitrary: q out rule: less_induct)
  case less
  from less.prems obtain x xs where Cons: "q = x # xs" by (cases q) auto
  let ?t = "pq_top_from x xs"
  have tq: "?t \<in> set (x # xs)" by (rule pq_top_from_mem)
  show ?case
  proof (cases "src_rest ?t")
    case Nil
    then show ?thesis unfolding Cons by (simp add: Iterator_inc_def Let_def)
  next
    case (Cons e es)
    let ?it = "?t\<lparr>src_cur := e, src_rest := es\<rparr>"
    let ?q' = "remove1 ?t (x # xs) @ [?it]"
    have a: "advance ?t = [?it]" using Cons by (simp add: advance_def)
    have sz: "heap_size ?q' < heap_size q"
      unfolding \<open>q = x # xs\<close> using heap_size_step[OF tq] a by simp
    have "merge_loop Detected ?q' (keep out (src_cur ?t)) = Inl OutOfRange"
      by (rule less.hyps[OF sz]) simp
    then show ?thesis unfolding \<open>q = x # xs\<close> using Cons
      by (simp add: Iterator_inc_def Let_def keep_def)
  qed
qed

subsection \<open>Winning and the overlay\<close>

text \<open>
  When the secondary keys ascend along the list of sources, the value that wins a key is
  the one the overlay finds.
\<close>

lemma holders_Cons: "holders (x # xs) k = holders [x] k \<union> holders xs k"
  by (auto simp: holders_def)

lemma wins_overlay:
  assumes "sorted_wrt (<) (map second_value q)"
    and "\<forall>x \<in> set q. sorted_wrt (<) (map fst (src_entries x))"
  shows "wins q k v \<longleftrightarrow> overlay_lookup (map src_entries q) k = Some v"
  using assms
proof (induction q)
  case Nil
  show ?case by (simp add: wins_def holders_def)
next
  case (Cons x xs)
  from Cons.prems have gt: "\<And>y. y \<in> set xs \<Longrightarrow> second_value x < second_value y"
    and sx: "sorted_wrt (<) (map fst (src_entries x))"
    and ih: "wins xs k v \<longleftrightarrow> overlay_lookup (map src_entries xs) k = Some v"
    using Cons.IH by auto
  show ?case
  proof (cases "map_of (src_entries x) k")
    case None
    then have "k \<notin> fst ` set (src_entries x)" by (simp add: map_of_eq_None_iff)
    then have "holders [x] k = {}" by (force simp: holders_def)
    then have "holders (x # xs) k = holders xs k" using holders_Cons[of x xs k] by simp
    then have "wins (x # xs) k v = wins xs k v" by (rule wins_cong)
    with ih None show ?thesis by simp
  next
    case (Some v0)
    then have in0: "(k, v0) \<in> set (src_entries x)" by (rule map_of_SomeD)
    then have h0: "(second_value x, v0) \<in> holders (x # xs) k" by (auto simp: holders_def)
    have lo: "second_value x \<le> s'" if "(s', v') \<in> holders (x # xs) k" for s' v'
      using that gt by (auto simp: holders_def dest: less_imp_le)
    have "wins (x # xs) k v \<longleftrightarrow> v = v0"
    proof
      assume "wins (x # xs) k v"
      then obtain s where s: "(s, v) \<in> holders (x # xs) k" "\<forall>(s', v') \<in> holders (x # xs) k. s \<le> s'"
        unfolding wins_def by blast
      from s(2) h0 have le: "s \<le> second_value x" by auto
      from s(1) obtain y where y: "y \<in> set (x # xs)" "s = second_value y" "(k, v) \<in> set (src_entries y)"
        unfolding holders_def by auto
      have "y = x"
      proof (rule ccontr)
        assume "y \<noteq> x"
        with y(1) have "y \<in> set xs" by simp
        from gt[OF this] y(2) le show False by simp
      qed
      with y(3) have "(k, v) \<in> set (src_entries x)" by simp
      from sorted_keys_unique[OF sx this in0] show "v = v0" .
    next
      assume "v = v0"
      then show "wins (x # xs) k v" unfolding wins_def using h0 lo by blast
    qed
    with Some show ?thesis by auto
  qed
qed

lemma upt_add_Suc: "[v..<v + Suc n] = v # [Suc v..<Suc v + n]"
proof -
  have "v < v + Suc n" by simp
  then have "[v..<v + Suc n] = v # [Suc v..<v + Suc n]" by (rule upt_conv_Cons)
  then show ?thesis by simp
qed

lemma sst_begin_ok:
  "sst_entries s \<noteq> [] \<Longrightarrow>
   \<exists>it. sst_begin s v = Inr it \<and> src_entries it = sst_entries s \<and> second_value it = v"
  by (cases "sst_entries s") (simp_all add: sst_begin_def src_entries_def)

lemma collect_level_result:
  "\<forall>s \<in> set ss. sst_entries s \<noteq> [] \<Longrightarrow>
   \<exists>q' mn' mx'. collect_level ss q v mn mx = Inr (q', v + length ss, mn', mx')
       \<and> map src_entries q' = map src_entries q @ map sst_entries ss
       \<and> map second_value q' = map second_value q @ [v..<v + length ss]"
proof (induction ss arbitrary: q v mn mx)
  case Nil
  show ?case by simp
next
  case (Cons s ss)
  then have "sst_entries s \<noteq> []" by simp
  from sst_begin_ok[OF this, of v] obtain it where
    it: "sst_begin s v = Inr it" "src_entries it = sst_entries s" "second_value it = v" by blast
  let ?mn = "if mn = [] \<or> fst (src_cur it) < mn then fst (src_cur it) else mn"
  let ?mx = "if mx = [] \<or> fst (last (sst_entries s)) > mx then fst (last (sst_entries s)) else mx"
  from Cons.prems have "\<forall>s \<in> set ss. sst_entries s \<noteq> []" by simp
  from Cons.IH[OF this, of "q @ [it]" "Suc v" ?mn ?mx] obtain q' mn' mx' where
    r: "collect_level ss (q @ [it]) (Suc v) ?mn ?mx = Inr (q', Suc v + length ss, mn', mx')"
       "map src_entries q' = map src_entries (q @ [it]) @ map sst_entries ss"
       "map second_value q' = map second_value (q @ [it]) @ [Suc v..<Suc v + length ss]"
    by blast
  have "[v..<v + length (s # ss)] = v # [Suc v..<Suc v + length ss]"
    using upt_add_Suc[of v "length ss"] by simp
  with r it show ?case by (simp add: Let_def)
qed

lemma collect_next_result:
  "\<forall>s \<in> set ss. sst_entries s \<noteq> [] \<Longrightarrow>
   \<exists>il ir q'. collect_next ss i mn mx il0 ir0 q v =
                 Inr (il, ir, q', v + length (overlapping ss mn mx))
       \<and> map src_entries q' = map src_entries q @ map sst_entries (overlapping ss mn mx)
       \<and> map second_value q' = map second_value q @ [v..<v + length (overlapping ss mn mx)]"
proof (induction ss arbitrary: i il0 ir0 q v)
  case Nil
  show ?case by simp
next
  case (Cons s ss)
  then have ne: "sst_entries s \<noteq> []" by simp
  then obtain e es where es: "sst_entries s = e # es" by (cases "sst_entries s") auto
  from sst_begin_ok[OF ne, of v] obtain it where
    it: "sst_begin s v = Inr it" "src_entries it = sst_entries s" "second_value it = v" by blast
  have cur: "fst (src_cur it) = fst e" using it(2) es by (simp add: src_entries_def)
  from Cons.prems have rest: "\<forall>s \<in> set ss. sst_entries s \<noteq> []" by simp
  consider (left) "fst (last (e # es)) < mn"
    | (right) "\<not> fst (last (e # es)) < mn" "fst e > mx"
    | (mid) "\<not> fst (last (e # es)) < mn" "\<not> fst e > mx" by blast
  then show ?case
  proof cases
    case left
    from Cons.IH[OF rest, of "Suc i" "int i" ir0 q v] left it es show ?thesis by simp
  next
    case right
    with it es cur show ?thesis by simp
  next
    case mid
    from Cons.IH[OF rest, of "Suc i" il0 ir0 "q @ [it]" "Suc v"] obtain il ir q' where
      r: "collect_next ss (Suc i) mn mx il0 ir0 (q @ [it]) (Suc v)
            = Inr (il, ir, q', Suc v + length (overlapping ss mn mx))"
         "map src_entries q' = map src_entries (q @ [it]) @ map sst_entries (overlapping ss mn mx)"
         "map second_value q' = map second_value (q @ [it]) @ [Suc v..<Suc v + length (overlapping ss mn mx)]"
      by blast
    have "[v..<v + Suc (length (overlapping ss mn mx))] = v # [Suc v..<Suc v + length (overlapping ss mn mx)]"
      by (rule upt_add_Suc)
    with r mid it es cur show ?thesis by simp
  qed
qed

lemma Nil_subseqs: "[] \<in> set (subseqs ss)"
  by (induction ss) (auto simp: Let_def)

lemma overlapping_subseqs: "overlapping ss mn mx \<in> set (subseqs ss)"
  by (induction ss) (auto simp: Let_def Nil_subseqs split: list.splits)

lemma option_eq_by_Some: "(\<And>v. a = Some v \<longleftrightarrow> b = Some v) \<Longrightarrow> a = b"
  by (cases a; cases b) auto

lemma merge_from_start:
  assumes sv: "map second_value q = [0..<length q]"
    and ok: "\<forall>x \<in> set q. sorted_wrt (<) (map fst (src_entries x))"
  shows "\<exists>res. merge_loop Unnoticed q [] = Inr res \<and> sorted_wrt (<) (map fst res)
           \<and> (\<forall>k. map_of res k = overlay_lookup (map src_entries q) k)"
proof -
  have d: "distinct (map second_value q)" unfolding sv by simp
  have s: "sorted_wrt (<) (map second_value q)" unfolding sv by (rule sorted_wrt_upt)
  have inv: "heap_inv q []" using ok d by (simp add: heap_inv_def)
  from merge_loop_correct[OF inv] obtain res where
    run: "merge_loop Unnoticed q [] = Inr res" and srt: "sorted_wrt (<) (map fst res)"
    and c: "\<And>k v. map_of res k = Some v \<longleftrightarrow> wins q k v"
    by auto
  have "map_of res k = overlay_lookup (map src_entries q) k" for k
  proof (rule option_eq_by_Some)
    fix v show "map_of res k = Some v \<longleftrightarrow> overlay_lookup (map src_entries q) k = Some v"
      using c[of k v] wins_overlay[OF s ok] by simp
  qed
  then show ?thesis using run srt by blast
qed


subsection \<open>What a compaction leaves in the next level\<close>

text \<open>
  For a level with at least one SST, all SSTs of it and of the next level holding at
  least one entry with strictly ascending keys.  Where the read past the end of the
  vector of blocks goes unnoticed, the compaction succeeds, empties the level, and puts
  one new SST between a front part and a back part of the next level.  The new SST holds
  every key once, in ascending order, and for every key exactly the value of the overlay
  of the merged SSTs: the SSTs of the level, newest first, before the merged SSTs of the
  next level.  Where that read is detected, the compaction stops with it.
\<close>

theorem SizeTieredCompaction_level_view:
  assumes lv: "level < length (levels m)"
    and ne: "ssts (levels m ! level) \<noteq> []"
    and okL: "\<forall>s \<in> set (ssts (levels m ! level)). sst_ok s"
    and okN: "\<forall>s \<in> set (next_level_ssts level m). sst_ok s"
  shows "(\<exists>m' merged a b ovl.
           SizeTieredCompaction_level Unnoticed level new_id m = Inr m'
         \<and> ssts (levels m' ! level) = []
         \<and> ssts (levels m' ! Suc level) =
             take a (next_level_ssts level m) @ [\<lparr>sst_id = new_id, sst_entries = merged\<rparr>]
             @ drop b (next_level_ssts level m)
         \<and> ovl \<in> set (subseqs (next_level_ssts level m))
         \<and> sorted_wrt (<) (map fst merged) \<and> distinct (map fst merged)
         \<and> (\<forall>k. map_of merged k =
                  overlay_lookup (map sst_entries (rev (ssts (levels m ! level)) @ ovl)) k))
       \<and> SizeTieredCompaction_level Detected level new_id m = Inl OutOfRange"
proof -
  let ?L = "ssts (levels m ! level)" and ?N = "next_level_ssts level m"
  let ?lvs = "if Suc level = length (levels m)
              then levels m @ [\<lparr>level_no = Suc level, ssts = []\<rparr>] else levels m"
  have neL: "\<forall>s \<in> set (rev ?L). sst_entries s \<noteq> []" using okL by (simp add: sst_ok_def)
  have neN: "\<forall>s \<in> set ?N. sst_entries s \<noteq> []" using okN by (simp add: sst_ok_def)
  from collect_level_result[OF neL, of "[]" 0 "[]" "[]"] obtain q0 mn mx where
    c0: "collect_level (rev ?L) [] 0 [] [] = Inr (q0, length ?L, mn, mx)"
        "map src_entries q0 = map sst_entries (rev ?L)"
        "map second_value q0 = [0..<length ?L]"
    by auto
  let ?ovl = "overlapping ?N mn mx"
  have nx: "ssts (?lvs ! Suc level) = ?N"
    using lv by (auto simp: next_level_ssts_def nth_append)
  from collect_next_result[OF neN, of 0 mn mx "- 1" "int (length ?N)" q0 "length ?L"]
  obtain il ir q where
    c1: "collect_next ?N 0 mn mx (- 1) (int (length ?N)) q0 (length ?L)
           = Inr (il, ir, q, length ?L + length ?ovl)"
        "map src_entries q = map src_entries q0 @ map sst_entries ?ovl"
        "map second_value q = map second_value q0 @ [length ?L..<length ?L + length ?ovl]"
    by blast
  have ent: "map src_entries q = map sst_entries (rev ?L @ ?ovl)"
    using c1(2) c0(2) by simp
  have len: "length q = length ?L + length ?ovl"
    using arg_cong[OF ent, of length] by simp
  have "[0..<length ?L] @ [length ?L..<length ?L + length ?ovl] = [0..<length ?L + length ?ovl]"
    using upt_add_eq_append[of 0 "length ?L" "length ?ovl"] by simp
  then have sv: "map second_value q = [0..<length q]"
    using c1(3) c0(3) len by simp
  have sub: "set ?ovl \<subseteq> set ?N"
    using overlapping_subseqs[of ?N mn mx] subseqs_powset[of ?N] by blast
  have ok: "\<forall>x \<in> set q. sorted_wrt (<) (map fst (src_entries x))"
  proof
    fix x assume "x \<in> set q"
    then have "src_entries x \<in> set (map src_entries q)" by simp
    then have "src_entries x \<in> sst_entries ` (set ?L \<union> set ?ovl)" unfolding ent by auto
    then obtain s where "s \<in> set ?L \<union> set ?ovl" "src_entries x = sst_entries s" by auto
    with okL okN sub show "sorted_wrt (<) (map fst (src_entries x))"
      by (auto simp: sst_ok_def)
  qed
  from merge_from_start[OF sv ok] obtain merged where
    mrun: "merge_loop Unnoticed q [] = Inr merged" and srt: "sorted_wrt (<) (map fst merged)"
    and mv: "\<And>k. map_of merged k = overlay_lookup (map src_entries q) k"
    by blast
  have view: "map_of merged k = overlay_lookup (map sst_entries (rev ?L @ ?ovl)) k" for k
    using mv[of k] ent by simp
  have nonempty: "merged \<noteq> []"
  proof -
    from ne obtain s0 rest where r: "rev ?L = s0 # rest" by (cases "rev ?L") auto
    then have "s0 \<in> set ?L" by (metis list.set_intros(1) set_rev)
    with okL obtain e es where e: "sst_entries s0 = e # es"
      by (cases "sst_entries s0") (auto simp: sst_ok_def)
    obtain k0 v0 where kv: "e = (k0, v0)" by (cases e)
    have "overlay_lookup (map sst_entries (rev ?L @ ?ovl)) k0 = Some v0"
      using r e kv by simp
    then have "map_of merged k0 = Some v0" using view by simp
    then show ?thesis by auto
  qed
  then obtain e es where m: "merged = e # es" by (cases merged) auto
  let ?new = "\<lparr>sst_id = new_id, sst_entries = merged\<rparr>"
  let ?new_ssts = "take (nat (il + 1)) ?N @ [?new] @ drop (nat ir) ?N"
  let ?lvs1 = "?lvs[level := (?lvs ! level)\<lparr>ssts := []\<rparr>]"
  let ?lvs2 = "?lvs1[Suc level := (?lvs1 ! Suc level)\<lparr>ssts := ?new_ssts\<rparr>]"
  let ?m' = "m\<lparr>levels := ?lvs2,
               max_sst_id := (if word_of_int new_id > max_sst_id m
                              then word_of_int new_id else max_sst_id m)\<rparr>"
  have run: "SizeTieredCompaction_level Unnoticed level new_id m = Inr ?m'"
    unfolding SizeTieredCompaction_level_def Let_def
    using lv c0(1) c1(1) nx mrun m by (simp del: merge_loop.simps)
  have l1: "level < length ?lvs" "Suc level < length ?lvs" using lv by auto
  have a: "ssts (levels ?m' ! level) = []" using l1 by simp
  have b: "ssts (levels ?m' ! Suc level) = ?new_ssts" using l1 by simp
  have dst: "distinct (map fst merged)" using srt by (simp add: strict_sorted_iff)
  have first: "\<exists>m' merged a b ovl.
           SizeTieredCompaction_level Unnoticed level new_id m = Inr m'
         \<and> ssts (levels m' ! level) = []
         \<and> ssts (levels m' ! Suc level) =
             take a (next_level_ssts level m) @ [\<lparr>sst_id = new_id, sst_entries = merged\<rparr>]
             @ drop b (next_level_ssts level m)
         \<and> ovl \<in> set (subseqs (next_level_ssts level m))
         \<and> sorted_wrt (<) (map fst merged) \<and> distinct (map fst merged)
         \<and> (\<forall>k. map_of merged k =
                  overlay_lookup (map sst_entries (rev (ssts (levels m ! level)) @ ovl)) k)"
    apply (rule exI[of _ ?m'], rule exI[of _ merged], rule exI[of _ "nat (il + 1)"],
           rule exI[of _ "nat ir"], rule exI[of _ ?ovl])
    using run a b overlapping_subseqs[of ?N mn mx] srt dst view by blast
  have "q \<noteq> []" using len ne by auto
  then have "merge_loop Detected q [] = Inl OutOfRange" by (rule merge_loop_Detected)
  then have second: "SizeTieredCompaction_level Detected level new_id m = Inl OutOfRange"
    unfolding SizeTieredCompaction_level_def Let_def
    using lv c0(1) c1(1) nx by (simp del: merge_loop.simps)
  from first second show ?thesis by (rule conjI)
qed

lemma m_overlap_facts:
  "0 < length (levels m_overlap)" "ssts (levels m_overlap ! 0) \<noteq> []"
  "\<forall>s \<in> set (ssts (levels m_overlap ! 0)). sst_ok s"
  "\<forall>s \<in> set (next_level_ssts 0 m_overlap). sst_ok s"
  by (simp_all add: m_overlap_def next_level_ssts_def sst_ok_def)

text \<open>The compaction of the example: \<open>c\<close> comes from the newer SST of level 0.\<close>

lemma compaction_example:
  "(case SizeTieredCompaction_level Unnoticed 0 9 m_overlap of
      Inl f \<Rightarrow> False
    | Inr m' \<Rightarrow>
        map sst_id (ssts (levels m' ! 1)) = [1, 9, 4]
        \<and> map sst_entries (ssts (levels m' ! 1))
            = [[(''0'', ''0'')],
               [(''a'', ''1''), (''b'', ''2''), (''c'', ''2''), (''d'', ''0'')],
               [(''x'', ''0'')]])"
  by code_simp

theorem SizeTieredCompaction_level_view_witness:
  "0 < length (levels m_overlap) \<and> ssts (levels m_overlap ! 0) \<noteq> []
   \<and> (\<exists>m' merged a b ovl.
         SizeTieredCompaction_level Unnoticed 0 9 m_overlap = Inr m'
       \<and> ssts (levels m' ! 0) = []
       \<and> ssts (levels m' ! Suc 0) =
           take a (next_level_ssts 0 m_overlap) @ [\<lparr>sst_id = 9, sst_entries = merged\<rparr>]
           @ drop b (next_level_ssts 0 m_overlap)
       \<and> ovl \<in> set (subseqs (next_level_ssts 0 m_overlap))
       \<and> distinct (map fst merged)
       \<and> (\<forall>k. map_of merged k =
                overlay_lookup (map sst_entries (rev (ssts (levels m_overlap ! 0)) @ ovl)) k))
   \<and> SizeTieredCompaction_level Detected 0 9 m_overlap = Inl OutOfRange"
  using SizeTieredCompaction_level_view[OF m_overlap_facts, of 9] m_overlap_facts(1,2)
  by blast

subsection \<open>The key range of a compaction and the empty key\<close>

text \<open>
  Claim C2 at the input that breaks it.  On level 0 the newer SST holds the empty key, so
  before the compaction the lookup of the empty key yields its value 2.  The first loop
  of the compaction takes the empty \<open>min_key\<close> it has just set for ``not set yet'' and
  replaces it by \<open>b\<close>; both SSTs of level 1 then count as lying below the range, and the
  new SST, which starts with the empty key, is placed after them.  The binary search of
  level 1 over the first keys \<open>a\<close>, \<open>aa\<close> and the empty key ends left of all three:
  the lookup of the empty key, which is in the merged output, finds nothing.  This is the
  run in which the read past the end of the vector of blocks goes unnoticed; where it is
  detected the compaction stops at the first iterator that leaves its SST, and there is
  no lookup after it.
\<close>

theorem compaction_loses_empty_key:
  "Manifest_Get m_empty_key [] = Inr (Some ''2'')
   \<and> (case SizeTieredCompaction_level Unnoticed 0 9 m_empty_key of
         Inl f \<Rightarrow> False
       | Inr m' \<Rightarrow>
           map sst_id (ssts (levels m' ! 1)) = [1, 2, 9]
           \<and> map sst_entries (ssts (levels m' ! 1))
               = [[(''a'', ''0'')], [(''aa'', ''0'')], [([], ''2''), (''b'', ''1'')]]
           \<and> Manifest_Get m' [] = Inr None)
   \<and> (case SizeTieredCompaction_level Detected 0 9 m_empty_key of
         Inl f \<Rightarrow> f = OutOfRange
       | Inr m' \<Rightarrow> False)"
  by code_simp
section \<open>Properties of the storage engine\<close>

text \<open>
  Claim C1 at the input that breaks it.  On a fresh engine, with the random counter at 3,
  \<open>Put(a, 1)\<close> inserts a node of one level and \<open>Get(a)\<close> yields 1.  \<open>Put(b, 2)\<close>
  then draws 4 and 5 and inserts a node of two levels: the head grows to two levels, the
  search ends at the node of \<open>a\<close>, and the linking loop starts there on level 1, which
  that node, with its single forward pointer, does not have.
\<close>

theorem DB_Put_out_of_range:
  "(case DB_Put 10 ''a'' ''1'' [3] (DB_new DBConfig_default) of
      Inl f \<Rightarrow> False
    | Inr (db1, draws1) \<Rightarrow>
        draws1 = [] \<and> DB_Get 10 ''a'' db1 = Inr (Some ''1'')
        \<and> (case DB_Put 10 ''b'' ''2'' [4, 5] db1 of
               Inl f \<Rightarrow> f = OutOfRange
             | Inr r \<Rightarrow> False))"
  by code_simp

text \<open>In the other order of the two levels the same two calls succeed.\<close>

lemma DB_Put_two_levels_first:
  "(case DB_Put 10 ''a'' ''1'' [0, 1] (DB_new DBConfig_default) of
      Inl f \<Rightarrow> False
    | Inr (db1, draws1) \<Rightarrow>
        (case DB_Put 10 ''b'' ''2'' [2] db1 of
           Inl f \<Rightarrow> False
         | Inr (db2, draws2) \<Rightarrow>
             DB_Get 10 ''a'' db2 = Inr (Some ''1'') \<and> DB_Get 10 ''b'' db2 = Inr (Some ''2'')
             \<and> DB_Get 10 ''c'' db2 = Inr None))"
  by code_simp

end
